theory Spec2Isabelle
  imports Main
begin

section \<open>The DOM text sink\<close>

text \<open>
  The engine writes into an element through \<^verbatim>\<open>textContent\<close> and through
  \<^verbatim>\<open>appendChild\<close> of a cursor \<^verbatim>\<open>span\<close>. The element is held as the list of its
  children. Assigning \<^verbatim>\<open>textContent\<close> replaces all children by one text node holding the
  string as it is (no node for the empty string); nothing parses the string.

  The DOM is a host object outside the repository. The source wraps its callbacks in
  \<^verbatim>\<open>try/catch\<close>, so the model lets a node refuse a mutation: \<open>fault\<close> says
  which of the two mutating calls throws. A node of a standard page has \<open>NoFault\<close>.
\<close>

datatype child = TextNode string | CursorSpan string

datatype dom_fault = NoFault | SetterThrows | AppendThrows

datatype exn = DOMException | TypeError

record dom_node =
  node_id :: nat
  children :: "child list"
  fault :: dom_fault

definition set_textContent :: "string \<Rightarrow> dom_node \<Rightarrow> exn + dom_node" where
  "set_textContent txt n =
     (if fault n = SetterThrows then Inl DOMException
      else Inr (n\<lparr>children := (if txt = [] then [] else [TextNode txt])\<rparr>))"

text \<open>
  \<^verbatim>\<open>const cursor = document.createElement('span'); cursor.className = 'typewriter-cursor';
  cursor.textContent = this.cursorChar; item.element.appendChild(cursor);\<close>
\<close>

definition appendCursor :: "string \<Rightarrow> dom_node \<Rightarrow> exn + dom_node" where
  "appendCursor c n =
     (if fault n = AppendThrows then Inl DOMException
      else Inr (n\<lparr>children := children n @ [CursorSpan c]\<rparr>))"

section \<open>Engine state\<close>

text \<open>
  The tracking object pushed by \<^verbatim>\<open>init\<close>. Strings are lists of code units.
  \<open>slideElement\<close> is the identity of the container; \<open>loopTimeout\<close> is
  \<^verbatim>\<open>null\<close> or a timer handle.
\<close>

record item =
  element :: "dom_node option"
  originalText :: string
  fullText :: string
  currentText :: string
  isTyping :: bool
  isVisible :: bool
  slideElement :: nat
  staggerIndex :: nat
  loopTimeout :: "nat option"

text \<open>
  The closures handed to \<^verbatim>\<open>setTimeout\<close>. Tracking objects are shared by reference
  between \<^verbatim>\<open>this.elements\<close> and every \<^verbatim>\<open>slideItems\<close> array, so a reference is
  the index of the object in \<^verbatim>\<open>this.elements\<close>, the store.
  \<open>TypeText i sl\<close> is \<^verbatim>\<open>() => this.typeText(item, slideItems)\<close>;
  \<open>LoopRestart j sl\<close> is the closure of lines 589-601.
\<close>

datatype callback = TypeText nat "nat list" | LoopRestart nat "nat list"

record timer =
  tid :: nat
  due :: nat
  cb :: callback

text \<open>
  The fields of \<^verbatim>\<open>TypewriterEffect\<close>, followed by the host's part: the table of
  pending timers, the clock in milliseconds, the next timer handle and the console.
  \<open>timeoutIds\<close> is a JavaScript \<^verbatim>\<open>Set\<close>: a duplicate-free list in insertion order.
\<close>

record state =
  typingSpeed :: nat
  cursorChar :: string
  pauseDuration :: nat
  staggerDelay :: nat
  loopDelay :: nat
  autoStart :: bool
  elements :: "item list"
  activeSlide :: "nat option"
  timeoutIds :: "nat list"
  observed :: "nat list"
  timers :: "timer list"
  now :: nat
  nextId :: nat
  console :: "string list"

record options =
  opt_typingSpeed :: "nat option"
  opt_cursorChar :: "string option"
  opt_pauseDuration :: "nat option"
  opt_staggerDelay :: "nat option"
  opt_loopDelay :: "nat option"
  opt_autoStart :: "bool option"

text \<open>\<^verbatim>\<open>options.x || d\<close>: a missing or falsy (zero, empty) option gives the default.\<close>

definition num_or :: "nat option \<Rightarrow> nat \<Rightarrow> nat" where
  "num_or v d = (case v of None \<Rightarrow> d | Some n \<Rightarrow> if n = 0 then d else n)"

definition str_or :: "string option \<Rightarrow> string \<Rightarrow> string" where
  "str_or v d = (case v of None \<Rightarrow> d | Some x \<Rightarrow> if x = [] then d else x)"

text \<open>The default cursor glyph U+2588, held as its UTF-8 bytes.\<close>

definition block_cursor :: string where
  "block_cursor = [CHR 0xE2, CHR 0x96, CHR 0x88]"

text \<open>The constructor, in a fresh host: no timer, clock 0, handles counted from 1.\<close>

definition constructor :: "options \<Rightarrow> state" where
  "constructor opts =
     \<lparr>typingSpeed = num_or (opt_typingSpeed opts) 40,
      cursorChar = str_or (opt_cursorChar opts) block_cursor,
      pauseDuration = num_or (opt_pauseDuration opts) 1500,
      staggerDelay = num_or (opt_staggerDelay opts) 100,
      loopDelay = num_or (opt_loopDelay opts) 20000,
      autoStart = (opt_autoStart opts \<noteq> Some False),
      elements = [],
      activeSlide = None,
      timeoutIds = [],
      observed = [],
      timers = [],
      now = 0,
      nextId = 1,
      console = []\<rparr>"

section \<open>Host operations\<close>

definition setTimeout :: "callback \<Rightarrow> nat \<Rightarrow> state \<Rightarrow> nat \<times> state" where
  "setTimeout f delay s =
     (nextId s,
      s\<lparr>timers := timers s @ [\<lparr>tid = nextId s, due = now s + delay, cb = f\<rparr>],
        nextId := Suc (nextId s)\<rparr>)"

definition clearTimeout :: "nat \<Rightarrow> state \<Rightarrow> state" where
  "clearTimeout h s = s\<lparr>timers := filter (\<lambda>t. tid t \<noteq> h) (timers s)\<rparr>"

definition console_log :: "string \<Rightarrow> state \<Rightarrow> state" where
  "console_log m s = s\<lparr>console := console s @ [m]\<rparr>"

text \<open>\<^verbatim>\<open>Set.add\<close>, \<^verbatim>\<open>Set.delete\<close>.\<close>

definition set_add :: "nat \<Rightarrow> nat list \<Rightarrow> nat list" where
  "set_add h hs = (if h \<in> set hs then hs else hs @ [h])"

definition set_delete :: "nat \<Rightarrow> nat list \<Rightarrow> nat list" where
  "set_delete h hs = filter (\<lambda>x. x \<noteq> h) hs"

text \<open>A JavaScript number is truthy when it is not zero; \<^verbatim>\<open>null\<close> is falsy.\<close>

definition truthy :: "nat option \<Rightarrow> bool" where
  "truthy v = (case v of None \<Rightarrow> False | Some h \<Rightarrow> h \<noteq> 0)"

section \<open>Statements that may throw\<close>

text \<open>
  A block either runs to its end or throws; the mutations made before the throw stay.
\<close>

datatype outcome = Done state | Thrown exn state

definition and_then :: "outcome \<Rightarrow> (state \<Rightarrow> outcome) \<Rightarrow> outcome" where
  "and_then r f = (case r of Done s \<Rightarrow> f s | Thrown e s \<Rightarrow> Thrown e s)"

definition upd :: "nat \<Rightarrow> (item \<Rightarrow> item) \<Rightarrow> state \<Rightarrow> state" where
  "upd i f s = s\<lparr>elements := (elements s)[i := f (elements s ! i)]\<rparr>"

text \<open>\<^verbatim>\<open>item.element.textContent = txt\<close>; a \<^verbatim>\<open>null\<close> element gives a TypeError.\<close>

definition write_text :: "nat \<Rightarrow> string \<Rightarrow> state \<Rightarrow> outcome" where
  "write_text i txt s =
     (case element (elements s ! i) of
        None \<Rightarrow> Thrown TypeError s
      | Some n \<Rightarrow>
          (case set_textContent txt n of
             Inl e \<Rightarrow> Thrown e s
           | Inr n' \<Rightarrow> Done (upd i (\<lambda>it. it\<lparr>element := Some n'\<rparr>) s)))"

definition append_cursor :: "nat \<Rightarrow> state \<Rightarrow> outcome" where
  "append_cursor i s =
     (case element (elements s ! i) of
        None \<Rightarrow> Thrown TypeError s
      | Some n \<Rightarrow>
          (case appendCursor (cursorChar s) n of
             Inl e \<Rightarrow> Thrown e s
           | Inr n' \<Rightarrow> Done (upd i (\<lambda>it. it\<lparr>element := Some n'\<rparr>) s)))"

text \<open>
  \<^verbatim>\<open>const timeoutId = setTimeout(f, delay); this.timeoutIds.add(timeoutId);\<close>
\<close>

definition schedule :: "callback \<Rightarrow> nat \<Rightarrow> state \<Rightarrow> state" where
  "schedule f delay s =
     (case setTimeout f delay s of
        (h, s') \<Rightarrow> s'\<lparr>timeoutIds := set_add h (timeoutIds s')\<rparr>)"

section \<open>typeText\<close>

definition allDone :: "nat list \<Rightarrow> state \<Rightarrow> bool" where
  "allDone sl s =
     list_all (\<lambda>j. length (currentText (elements s ! j)) = length (fullText (elements s ! j))) sl"

text \<open>
  One round of \<^verbatim>\<open>slideItems.forEach(si => { si.loopTimeout = setTimeout(..., this.loopDelay);
  this.timeoutIds.add(si.loopTimeout); })\<close>.
\<close>

definition arm_loop :: "nat list \<Rightarrow> state \<Rightarrow> nat \<Rightarrow> state" where
  "arm_loop sl s j =
     (case setTimeout (LoopRestart j sl) (loopDelay s) s of
        (h, s1) \<Rightarrow>
          (let s2 = upd j (\<lambda>it. it\<lparr>loopTimeout := Some h\<rparr>) s1
           in s2\<lparr>timeoutIds := set_add h (timeoutIds s2)\<rparr>))"

definition typeText_body :: "nat \<Rightarrow> nat list \<Rightarrow> state \<Rightarrow> outcome" where
  "typeText_body i sl s =
     (let it = elements s ! i in
      if \<not> isVisible it \<or> element it = None then Done s
      else if length (currentText it) < length (fullText it) then
        (let s1 = upd i (\<lambda>it. it\<lparr>currentText :=
                         currentText it @ [fullText it ! length (currentText it)]\<rparr>) s
         in and_then (write_text i (currentText (elements s1 ! i)) s1) (\<lambda>s2.
            and_then (append_cursor i s2) (\<lambda>s3.
            Done (schedule (TypeText i sl) (typingSpeed s3) s3))))
      else
        and_then (write_text i (fullText it) s) (\<lambda>s1.
          Done (if allDone sl s1 \<and> \<not> truthy (loopTimeout (elements s1 ! i))
                then foldl (arm_loop sl) s1 sl
                else s1)))"

definition typeText :: "nat \<Rightarrow> nat list \<Rightarrow> state \<Rightarrow> state" where
  "typeText i sl s =
     (case typeText_body i sl s of
        Done s' \<Rightarrow> s'
      | Thrown e s' \<Rightarrow> console_log ''Typewriter animation error:'' s')"

text \<open>
  The loop closure (lines 589-601). It has no \<^verbatim>\<open>try\<close> of its own: a throw ends the
  callback and the host reports it.
\<close>

definition loopRestart_body :: "nat \<Rightarrow> nat list \<Rightarrow> state \<Rightarrow> outcome" where
  "loopRestart_body j sl s =
     and_then (write_text j [] (upd j (\<lambda>it. it\<lparr>currentText := []\<rparr>) s)) (\<lambda>s1.
       (let s2 = upd j (\<lambda>it. it\<lparr>loopTimeout := None\<rparr>) s1
        in Done (schedule (TypeText j sl)
                   (staggerIndex (elements s2 ! j) * staggerDelay s2) s2)))"

definition loopRestart :: "nat \<Rightarrow> nat list \<Rightarrow> state \<Rightarrow> state" where
  "loopRestart j sl s =
     (case loopRestart_body j sl s of
        Done s' \<Rightarrow> s'
      | Thrown e s' \<Rightarrow> console_log ''Uncaught'' s')"

section \<open>The IntersectionObserver callback\<close>

definition clear_loop :: "state \<Rightarrow> nat \<Rightarrow> state" where
  "clear_loop s j =
     (case loopTimeout (elements s ! j) of
        None \<Rightarrow> s
      | Some h \<Rightarrow>
          if h \<noteq> 0
          then (let s1 = clearTimeout h s in s1\<lparr>timeoutIds := set_delete h (timeoutIds s1)\<rparr>)
          else s)"

definition start_item_body :: "nat list \<Rightarrow> state \<Rightarrow> nat \<Rightarrow> outcome" where
  "start_item_body sl s j =
     (let s1 = (if \<not> isVisible (elements s ! j)
                then upd j (\<lambda>it. it\<lparr>isVisible := True\<rparr>) s else s);
          s2 = upd j (\<lambda>it. it\<lparr>currentText := []\<rparr>) s1
      in and_then (write_text j [] s2) (\<lambda>s3.
           Done (schedule (TypeText j sl)
                   (staggerIndex (elements s3 ! j) * staggerDelay s3) s3)))"

definition start_item :: "nat list \<Rightarrow> state \<Rightarrow> nat \<Rightarrow> state" where
  "start_item sl s j =
     (case start_item_body sl s j of
        Done s' \<Rightarrow> s'
      | Thrown e s' \<Rightarrow> console_log ''Error starting typewriter item:'' s')"

text \<open>\<^verbatim>\<open>this.elements.filter(item => item.slideElement === entry.target)\<close>\<close>

definition slideItems_of :: "nat \<Rightarrow> state \<Rightarrow> nat list" where
  "slideItems_of target s =
     filter (\<lambda>j. slideElement (elements s ! j) = target) [0..<length (elements s)]"

text \<open>An entry is the pair of \<^verbatim>\<open>entry.target\<close> and \<^verbatim>\<open>entry.isIntersecting\<close>.\<close>

definition on_entry :: "state \<Rightarrow> nat \<times> bool \<Rightarrow> state" where
  "on_entry s entry =
     (if snd entry
      then (let sl = slideItems_of (fst entry) s
            in foldl (start_item sl) (foldl clear_loop s sl) sl)
      else s)"

definition observer_callback :: "(nat \<times> bool) list \<Rightarrow> state \<Rightarrow> state" where
  "observer_callback entries s = foldl on_entry s entries"

section \<open>Registration\<close>

text \<open>
  One element of \<^verbatim>\<open>document.querySelectorAll('[data-typewriter]')\<close>: its node, the
  value of the attribute, and the two \<^verbatim>\<open>closest\<close> lookups.
\<close>

record doc_element =
  node :: dom_node
  data_typewriter :: string
  closest_slide :: "nat option"
  closest_help_topic :: "nat option"

text \<open>The \<^verbatim>\<open>Map\<close> from container to its elements, in insertion order.\<close>

fun group_push :: "nat \<Rightarrow> doc_element \<Rightarrow> (nat \<times> doc_element list) list
    \<Rightarrow> (nat \<times> doc_element list) list" where
  "group_push k e [] = [(k, [e])]"
| "group_push k e ((k', es) # gs) =
     (if k = k' then (k', es @ [e]) # gs else (k', es) # group_push k e gs)"

definition group_step :: "(nat \<times> doc_element list) list \<Rightarrow> doc_element
    \<Rightarrow> (nat \<times> doc_element list) list" where
  "group_step gs e =
     (case (case closest_slide e of Some k \<Rightarrow> Some k | None \<Rightarrow> closest_help_topic e) of
        None \<Rightarrow> gs
      | Some k \<Rightarrow> group_push k e gs)"

definition slideGroups :: "doc_element list \<Rightarrow> (nat \<times> doc_element list) list" where
  "slideGroups doc = foldl group_step [] doc"

text \<open>\<^verbatim>\<open>if (text && typeof text === 'string') this.elements.push({...})\<close>\<close>

definition track :: "nat \<Rightarrow> nat \<times> doc_element \<Rightarrow> item list" where
  "track slide p =
     (if data_typewriter (snd p) \<noteq> []
      then [\<lparr>element = Some (node (snd p)),
             originalText = data_typewriter (snd p),
             fullText = data_typewriter (snd p),
             currentText = [],
             isTyping = False,
             isVisible = False,
             slideElement = slide,
             staggerIndex = fst p,
             loopTimeout = None\<rparr>]
      else [])"

definition track_group :: "nat \<times> doc_element list \<Rightarrow> item list" where
  "track_group g = concat (map (track (fst g)) (enumerate 0 (snd g)))"

text \<open>\<^verbatim>\<open>setupIntersectionObserver\<close> observes each container of a tracked item once.\<close>

definition observe_all :: "state \<Rightarrow> state" where
  "observe_all s =
     s\<lparr>observed := foldl (\<lambda>seen it. set_add (slideElement it) seen) (observed s) (elements s)\<rparr>"

definition init :: "doc_element list \<Rightarrow> state \<Rightarrow> state" where
  "init doc s =
     (if doc = [] then console_log ''No typewriter elements found'' s
      else observe_all
             (s\<lparr>elements := elements s @ concat (map track_group (slideGroups doc))\<rparr>))"

section \<open>Timers firing, teardown\<close>

text \<open>The pending timer that fires next: the earliest due, the oldest among equals.\<close>

fun earliest :: "timer list \<Rightarrow> timer option" where
  "earliest [] = None"
| "earliest (t # ts) =
     (case earliest ts of
        None \<Rightarrow> Some t
      | Some u \<Rightarrow> if due u < due t then Some u else Some t)"

definition run_callback :: "callback \<Rightarrow> state \<Rightarrow> state" where
  "run_callback f s =
     (case f of TypeText i sl \<Rightarrow> typeText i sl s | LoopRestart j sl \<Rightarrow> loopRestart j sl s)"

definition fire :: "timer \<Rightarrow> state \<Rightarrow> state" where
  "fire t s =
     run_callback (cb t)
       (s\<lparr>timers := filter (\<lambda>u. tid u \<noteq> tid t) (timers s), now := max (now s) (due t)\<rparr>)"

definition fire_next :: "state \<Rightarrow> state" where
  "fire_next s = (case earliest (timers s) of None \<Rightarrow> s | Some t \<Rightarrow> fire t s)"

text \<open>
  \<^verbatim>\<open>this.timeoutIds.forEach(id => clearTimeout(id)); this.timeoutIds.clear();\<close>
\<close>

definition destroy :: "state \<Rightarrow> state" where
  "destroy s = (foldl (\<lambda>s h. clearTimeout h s) s (timeoutIds s))\<lparr>timeoutIds := []\<rparr>"

section \<open>The event loop\<close>

text \<open>
  The states the page can be in. The host runs one callback at a time: an observer
  notification, the timer that is due next, or the unload handler; between callbacks the
  clock may advance up to the next due time.
\<close>

inductive reachable :: "state \<Rightarrow> bool" where
  start: "reachable (init doc (constructor opts))"
| notify: "reachable s \<Longrightarrow> reachable (observer_callback entries s)"
| timeout: "reachable s \<Longrightarrow> reachable (fire_next s)"
| wait: "reachable s \<Longrightarrow> \<forall>u \<in> set (timers s). t \<le> due u \<Longrightarrow>
         reachable (s\<lparr>now := max (now s) t\<rparr>)"
| unload: "reachable s \<Longrightarrow> reachable (destroy s)"

text \<open>The state in which a block ends, thrown or not.\<close>

definition final :: "outcome \<Rightarrow> state" where
  "final r = (case r of Done s \<Rightarrow> s | Thrown e s \<Rightarrow> s)"

text \<open>Every pending timer has its handle in \<open>timeoutIds\<close>.\<close>

definition pending_tracked :: "state \<Rightarrow> bool" where
  "pending_tracked s = list_all (\<lambda>t. tid t \<in> set (timeoutIds s)) (timers s)"

section \<open>A page with one slide\<close>

definition demo_options :: options where
  "demo_options =
     \<lparr>opt_typingSpeed = Some 10, opt_cursorChar = Some ''|'', opt_pauseDuration = None,
      opt_staggerDelay = Some 5, opt_loopDelay = Some 100, opt_autoStart = None\<rparr>"

definition text_element :: "nat \<Rightarrow> string \<Rightarrow> nat \<Rightarrow> doc_element" where
  "text_element k txt slide =
     \<lparr>node = \<lparr>node_id = k, children = [TextNode txt], fault = NoFault\<rparr>,
      data_typewriter = txt, closest_slide = Some slide, closest_help_topic = None\<rparr>"

definition hi_yo :: state where
  "hi_yo = init [text_element 0 ''Hi'' 7, text_element 1 ''Yo'' 7] (constructor demo_options)"

definition hi_yo_visible :: state where
  "hi_yo_visible = observer_callback [(7, True)] hi_yo"

text \<open>The states of that page are written with the parts that change.\<close>

definition demo_item :: "nat \<Rightarrow> string \<Rightarrow> string \<Rightarrow> child list \<Rightarrow> bool \<Rightarrow> nat option \<Rightarrow> item" where
  "demo_item k txt cur kids vis lt =
     \<lparr>element = Some \<lparr>node_id = k, children = kids, fault = NoFault\<rparr>,
      originalText = txt, fullText = txt, currentText = cur, isTyping = False,
      isVisible = vis, slideElement = 7, staggerIndex = k, loopTimeout = lt\<rparr>"

definition demo_state :: "nat \<Rightarrow> nat \<Rightarrow> item list \<Rightarrow> nat list \<Rightarrow> timer list \<Rightarrow> state" where
  "demo_state t nid els ids tms =
     (constructor demo_options)\<lparr>elements := els, observed := [7], timeoutIds := ids,
        timers := tms, now := t, nextId := nid\<rparr>"

definition tm :: "nat \<Rightarrow> nat \<Rightarrow> callback \<Rightarrow> timer" where
  "tm h d f = \<lparr>tid = h, due = d, cb = f\<rparr>"

text \<open>
  What a test of the page observes: the clock, the children of every sink, and the
  pending timers with handle, due time and callback.
\<close>

definition snapshot :: "state \<Rightarrow> nat \<times> child list option list \<times> (nat \<times> nat \<times> callback) list" where
  "snapshot s = (now s, map (\<lambda>it. map_option children (element it)) (elements s),
                 map (\<lambda>t. (tid t, due t, cb t)) (timers s))"

text \<open>
  The slide is reported intersecting a second time, after both texts were typed and while
  the loop timers are pending.
\<close>

definition hi_yo_reentered :: state where
  "hi_yo_reentered = observer_callback [(7, True)] ((fire_next ^^ 6) hi_yo_visible)"

text \<open>The handles in \<open>A\<close> are all in \<open>timeoutIds\<close>.\<close>

definition keeps :: "nat set \<Rightarrow> state \<Rightarrow> bool" where
  "keeps A s = (A \<subseteq> set (timeoutIds s))"

section \<open>Views of an item\<close>

text \<open>
  A view of an item that neither a change of the sink's children nor a change of
  \<open>loopTimeout\<close> affects.
\<close>

definition frame_field :: "(item \<Rightarrow> 'a) \<Rightarrow> bool" where
  "frame_field f =
     ((\<forall>it n c. element it = Some n
          \<longrightarrow> f (it\<lparr>element := Some (n\<lparr>children := c\<rparr>)\<rparr>) = f it)
      \<and> (\<forall>it h. f (it\<lparr>loopTimeout := h\<rparr>) = f it))"

text \<open>The revealed text and the full text; the first is to be a prefix of the second.\<close>

definition text_fields :: "item \<Rightarrow> string \<times> string" where
  "text_fields it = (currentText it, fullText it)"

definition is_prefix :: "string \<times> string \<Rightarrow> bool" where
  "is_prefix p = (fst p = take (length (fst p)) (snd p))"

definition prefix_ok :: "state \<Rightarrow> bool" where
  "prefix_ok s = list_all is_prefix (map text_fields (elements s))"

text \<open>What the loop closure and the observer callback do to the text fields of an item.\<close>

definition cleared :: "item \<Rightarrow> item" where
  "cleared it = it\<lparr>currentText := []\<rparr>"

definition reset :: "item \<Rightarrow> item" where
  "reset it = it\<lparr>isVisible := True, currentText := []\<rparr>"

text \<open>
  What one call of \<^verbatim>\<open>typeText\<close> does to the item it is called on, the sink and
  \<open>loopTimeout\<close> apart.
\<close>

definition typed :: "item \<Rightarrow> item" where
  "typed it =
     (if isVisible it \<and> element it \<noteq> None \<and> length (currentText it) < length (fullText it)
      then it\<lparr>currentText := currentText it @ [fullText it ! length (currentText it)]\<rparr>
      else it)"

text \<open>A page with two slides, one text in each.\<close>

definition two_slides :: state where
  "two_slides = init [text_element 0 ''Hi'' 7, text_element 1 ''Yo'' 8] (constructor demo_options)"

text \<open>
  Every pending loop timer is the one its element holds in \<open>loopTimeout\<close>, the handle
  that the observer callback cancels.
\<close>

definition loops_recorded :: "state \<Rightarrow> bool" where
  "loops_recorded s =
     list_all (\<lambda>t. case cb t of
                  TypeText i sl \<Rightarrow> True
                | LoopRestart k sl \<Rightarrow> tid t \<noteq> 0 \<and> loopTimeout (elements s ! k) = Some (tid t))
       (timers s)"

text \<open>
  The output contract as the spec words it: a sink holds the revealed prefix followed by
  the cursor, or the full text alone.
\<close>

definition spec_sink_content :: "string \<Rightarrow> item \<Rightarrow> child list \<Rightarrow> bool" where
  "spec_sink_content c it kids =
     (kids = (if currentText it = [] then [] else [TextNode (currentText it)]) @ [CursorSpan c]
      \<or> kids = [TextNode (fullText it)])"

section \<open>From one state to a later one\<close>

text \<open>\<open>evolves s0 s\<close>: the event loop leads from \<open>s0\<close> to \<open>s\<close>.\<close>

inductive evolves :: "state \<Rightarrow> state \<Rightarrow> bool" for s0 where
  here: "evolves s0 s0"
| notify: "evolves s0 s \<Longrightarrow> evolves s0 (observer_callback entries s)"
| timeout: "evolves s0 s \<Longrightarrow> evolves s0 (fire_next s)"
| wait: "evolves s0 s \<Longrightarrow> \<forall>u \<in> set (timers s). t \<le> due u \<Longrightarrow>
         evolves s0 (s\<lparr>now := max (now s) t\<rparr>)"
| unload: "evolves s0 s \<Longrightarrow> evolves s0 (destroy s)"

text \<open>The item a callback is for, and the \<^verbatim>\<open>slideItems\<close> array it holds.\<close>

fun cb_item :: "callback \<Rightarrow> nat" where
  "cb_item (TypeText i sl) = i"
| "cb_item (LoopRestart i sl) = i"

fun cb_group :: "callback \<Rightarrow> nat list" where
  "cb_group (TypeText i sl) = sl"
| "cb_group (LoopRestart i sl) = sl"

text \<open>
  Every reference held by a pending callback is a tracked item, \<open>n\<close> being the number
  of tracked items.
\<close>

definition cb_ok :: "nat \<Rightarrow> callback \<Rightarrow> bool" where
  "cb_ok n c = (cb_item c < n \<and> list_all (\<lambda>j. j < n) (cb_group c))"

definition timers_ok :: "nat \<Rightarrow> state \<Rightarrow> bool" where
  "timers_ok n s = (length (elements s) = n \<and> list_all (\<lambda>t. cb_ok n (cb t)) (timers s))"

text \<open>A view of an item that also the text and the visibility leave alone.\<close>

definition static_field :: "(item \<Rightarrow> 'a) \<Rightarrow> bool" where
  "static_field f =
     (frame_field f \<and> (\<forall>it x. f (it\<lparr>currentText := x\<rparr>) = f it)
      \<and> (\<forall>it x. f (it\<lparr>isVisible := x\<rparr>) = f it))"

text \<open>A slide whose second element carries an empty directive.\<close>

definition gap_page :: "doc_element list" where
  "gap_page = [text_element 0 ''Hi'' 7, text_element 1 [] 7, text_element 2 ''Yo'' 7]"

definition gap_visible :: state where
  "gap_visible = observer_callback [(7, True)] (init gap_page (constructor demo_options))"

text \<open>
  A page with the one text "Hello", reported intersecting once, and a second time after
  three typing steps.
\<close>

definition hello :: state where
  "hello = init [text_element 0 ''Hello'' 7] (constructor demo_options)"

definition hello_visible :: state where
  "hello_visible = observer_callback [(7, True)] hello"

definition hello_retriggered :: state where
  "hello_retriggered = observer_callback [(7, True)] ((fire_next ^^ 3) hello_visible)"

section \<open>The loop timers of a group\<close>

text \<open>
  What the timer table, the \<open>loopTimeout\<close> handles and the containers of the tracked
  items have in common in every state of the page. \<open>T\<close> is the timer table, \<open>L\<close> the
  list of the handles, \<open>S\<close> the list of the containers, \<open>N\<close> the clock and \<open>I\<close> the
  next handle. The loop timers of a group are armed together, with one due time and
  consecutive handles; a group is \<open>complete\<close> while all of them are pending, and once the
  first has fired the others are \<open>urgent\<close>: they fire before any other timer.
\<close>

definition is_loop :: "callback \<Rightarrow> bool" where
  "is_loop c = (case c of TypeText i sl \<Rightarrow> False | LoopRestart i sl \<Rightarrow> True)"

definition members :: "nat list \<Rightarrow> nat \<Rightarrow> nat list" where
  "members S x = filter (\<lambda>j. S ! j = x) [0..<length S]"

definition complete :: "timer list \<Rightarrow> timer \<Rightarrow> bool" where
  "complete T t =
     (\<forall>k \<in> set (cb_group (cb t)).
        \<exists>t' \<in> set T. is_loop (cb t') \<and> cb_item (cb t') = k \<and> due t' = due t)"

definition urgent :: "timer list \<Rightarrow> nat \<Rightarrow> timer \<Rightarrow> bool" where
  "urgent T N t =
     (due t \<le> N \<and>
      (\<forall>u \<in> set T. (is_loop (cb u) \<and> cb_group (cb u) = cb_group (cb t))
                    \<or> due t < due u \<or> (due u = due t \<and> tid t < tid u)))"

definition ids_ok :: "timer list \<Rightarrow> nat \<Rightarrow> bool" where
  "ids_ok T I = (0 < I \<and> sorted_wrt (<) (map tid T) \<and> (\<forall>t \<in> set T. 0 < tid t \<and> tid t < I))"

definition handles_ok :: "timer list \<Rightarrow> nat option list \<Rightarrow> nat \<Rightarrow> bool" where
  "handles_ok T L I =
     ((\<forall>k < length L. \<forall>h. L ! k = Some h \<longrightarrow> h < I)
      \<and> (\<forall>t \<in> set T. \<forall>k < length L. L ! k = Some (tid t)
             \<longrightarrow> is_loop (cb t) \<and> cb_item (cb t) = k))"

definition recorded :: "timer list \<Rightarrow> nat option list \<Rightarrow> bool" where
  "recorded T L = (\<forall>t \<in> set T. is_loop (cb t) \<longrightarrow> L ! cb_item (cb t) = Some (tid t))"

definition groups_ok :: "timer list \<Rightarrow> nat list \<Rightarrow> bool" where
  "groups_ok T S =
     (\<forall>t \<in> set T. cb_item (cb t) < length S
         \<and> cb_group (cb t) = members S (S ! cb_item (cb t)))"

definition blocks_ok :: "timer list \<Rightarrow> nat \<Rightarrow> bool" where
  "blocks_ok T N =
     ((\<forall>t \<in> set T. N \<le> due t)
      \<and> (\<forall>t \<in> set T. is_loop (cb t) \<longrightarrow> complete T t \<or> urgent T N t))"

definition contiguous :: "timer list \<Rightarrow> bool" where
  "contiguous T =
     (\<forall>t \<in> set T. \<forall>t' \<in> set T. \<forall>u \<in> set T.
         is_loop (cb t) \<and> is_loop (cb t') \<and> cb_group (cb t) = cb_group (cb t')
         \<and> tid t < tid u \<and> tid u < tid t'
         \<longrightarrow> is_loop (cb u) \<and> cb_group (cb u) = cb_group (cb t))"

definition abs_inv :: "timer list \<Rightarrow> nat option list \<Rightarrow> nat list \<Rightarrow> nat \<Rightarrow> nat \<Rightarrow> bool" where
  "abs_inv T L S N I =
     (length L = length S \<and> ids_ok T I \<and> handles_ok T L I \<and> recorded T L
      \<and> groups_ok T S \<and> blocks_ok T N \<and> contiguous T)"

text \<open>
  The same for a state of the engine; and what a callback needs of the state it starts in:
  \<open>armable\<close> for \<^verbatim>\<open>typeText\<close>, \<open>restartable\<close> for the loop closure,
  \<open>startable\<close> for the start of an item by the observer callback.
\<close>

definition loop_inv :: "state \<Rightarrow> bool" where
  "loop_inv s =
     abs_inv (timers s) (map loopTimeout (elements s)) (map slideElement (elements s))
       (now s) (nextId s)"

definition same_loops :: "state \<Rightarrow> state \<Rightarrow> bool" where
  "same_loops s s' =
     (timers s' = timers s \<and> map loopTimeout (elements s') = map loopTimeout (elements s)
      \<and> map slideElement (elements s') = map slideElement (elements s)
      \<and> now s' = now s \<and> nextId s' = nextId s \<and> loopDelay s' = loopDelay s)"

definition group_of :: "state \<Rightarrow> nat \<Rightarrow> nat list" where
  "group_of s i = members (map slideElement (elements s)) (map slideElement (elements s) ! i)"

definition no_loops :: "nat list \<Rightarrow> state \<Rightarrow> bool" where
  "no_loops sl s = (\<forall>t \<in> set (timers s). is_loop (cb t) \<longrightarrow> cb_group (cb t) \<noteq> sl)"

definition armable :: "nat \<Rightarrow> nat list \<Rightarrow> state \<Rightarrow> bool" where
  "armable i sl s =
     (loop_inv s \<and> i < length (elements s) \<and> sl = group_of s i
      \<and> (\<not> truthy (map loopTimeout (elements s) ! i) \<longrightarrow> no_loops sl s))"

definition restartable :: "nat \<Rightarrow> nat list \<Rightarrow> state \<Rightarrow> bool" where
  "restartable j sl s =
     (loop_inv s \<and> j < length (elements s) \<and> sl = group_of s j
      \<and> (\<forall>t \<in> set (timers s). is_loop (cb t) \<longrightarrow> cb_item (cb t) \<noteq> j))"

definition startable :: "nat \<Rightarrow> nat list \<Rightarrow> state \<Rightarrow> bool" where
  "startable j sl s = (loop_inv s \<and> j < length (elements s) \<and> sl = group_of s j)"

text \<open>
  The page with "Hi" and "Yo" when the sink of "Hi" accepts an assignment of
  \<^verbatim>\<open>textContent\<close> but refuses the cursor span.
\<close>

definition brittle_page :: "doc_element list" where
  "brittle_page =
     [(text_element 0 ''Hi'' 7)
        \<lparr>node := \<lparr>node_id = 0, children = [TextNode ''Hi''], fault = AppendThrows\<rparr>\<rparr>,
      text_element 1 ''Yo'' 7]"

definition brittle_visible :: state where
  "brittle_visible = observer_callback [(7, True)] (init brittle_page (constructor demo_options))"

definition brittle_item :: "string \<Rightarrow> child list \<Rightarrow> item" where
  "brittle_item cur kids =
     (demo_item 0 ''Hi'' cur kids True None)
       \<lparr>element := Some \<lparr>node_id = 0, children = kids, fault = AppendThrows\<rparr>\<rparr>"

section \<open>Pending steps and visibility\<close>

text \<open>
  The elements \<open>js\<close> are all visible; every pending callback is for a visible element
  and holds visible \<^verbatim>\<open>slideItems\<close>; a callback for \<open>i\<close> and \<open>sl\<close> may run; two
  states with the same timers and the same visibility; every tracked item has its element.
\<close>

definition shown :: "nat list \<Rightarrow> state \<Rightarrow> bool" where
  "shown js s = list_all (\<lambda>j. isVisible (elements s ! j)) js"

definition visible_ok :: "state \<Rightarrow> bool" where
  "visible_ok s = list_all (\<lambda>t. shown (cb_item (cb t) # cb_group (cb t)) s) (timers s)"

definition step_ready :: "nat \<Rightarrow> nat list \<Rightarrow> state \<Rightarrow> bool" where
  "step_ready i sl s = (visible_ok s \<and> shown (i # sl) s)"

definition same_visible :: "state \<Rightarrow> state \<Rightarrow> bool" where
  "same_visible s s' =
     (timers s' = timers s \<and> (\<forall>k. isVisible (elements s' ! k) = isVisible (elements s ! k)))"

definition present :: "state \<Rightarrow> bool" where
  "present s = list_all (\<lambda>it. element it \<noteq> None) (elements s)"

section \<open>Properties\<close>

subsection \<open>Blocks and their final state\<close>

lemma final_simps [simp]: "final (Done s) = s" "final (Thrown e s) = s"
  by (simp_all add: final_def)

lemma and_then_final:
  assumes "P (final r)" and "\<And>s. P s \<Longrightarrow> P (final (f s))"
  shows "P (final (and_then r f))"
  using assms by (cases r) (simp_all add: and_then_def)

lemma upd_fields [simp]:
  "timers (upd i f s) = timers s" "timeoutIds (upd i f s) = timeoutIds s"
  "nextId (upd i f s) = nextId s" "now (upd i f s) = now s" "console (upd i f s) = console s"
  "cursorChar (upd i f s) = cursorChar s" "typingSpeed (upd i f s) = typingSpeed s"
  "staggerDelay (upd i f s) = staggerDelay s" "loopDelay (upd i f s) = loopDelay s"
  "length (elements (upd i f s)) = length (elements s)"
  by (simp_all add: upd_def)

lemma set_set_add [simp]: "set (set_add h hs) = insert h (set hs)"
  by (auto simp: set_add_def)

lemma set_set_delete [simp]: "set (set_delete h hs) = set hs - {h}"
  by (auto simp: set_delete_def)

subsection \<open>Pending timers are tracked\<close>

lemmas pt_and_then = and_then_final [where P = pending_tracked]

lemma pt_upd [simp]: "pending_tracked (upd i f s) = pending_tracked s"
  by (simp add: pending_tracked_def)

lemma pt_console_log [simp]: "pending_tracked (console_log m s) = pending_tracked s"
  by (simp add: pending_tracked_def console_log_def)

lemma pt_write_text: "pending_tracked s \<Longrightarrow> pending_tracked (final (write_text i txt s))"
  by (simp add: write_text_def split: option.splits sum.splits)

lemma pt_append_cursor: "pending_tracked s \<Longrightarrow> pending_tracked (final (append_cursor i s))"
  by (simp add: append_cursor_def split: option.splits sum.splits)

lemma pt_schedule: "pending_tracked s \<Longrightarrow> pending_tracked (schedule f d s)"
  by (auto simp: pending_tracked_def schedule_def setTimeout_def list_all_iff)

lemma pt_arm_loop: "pending_tracked s \<Longrightarrow> pending_tracked (arm_loop sl s j)"
  by (auto simp: pending_tracked_def arm_loop_def setTimeout_def list_all_iff Let_def)

lemma pt_foldl_arm: "pending_tracked s \<Longrightarrow> pending_tracked (foldl (arm_loop sl) s js)"
  by (induction js arbitrary: s) (simp_all add: pt_arm_loop)

lemma pt_typeText_body: "pending_tracked s \<Longrightarrow> pending_tracked (final (typeText_body i sl s))"
  unfolding typeText_body_def Let_def
  by (auto intro!: pt_and_then pt_write_text pt_append_cursor pt_schedule pt_foldl_arm)

lemma pt_typeText: "pending_tracked s \<Longrightarrow> pending_tracked (typeText i sl s)"
  using pt_typeText_body [of s i sl]
  by (cases "typeText_body i sl s") (simp_all add: typeText_def)

lemma pt_loopRestart_body:
  "pending_tracked s \<Longrightarrow> pending_tracked (final (loopRestart_body j sl s))"
  unfolding loopRestart_body_def Let_def
  by (auto intro!: pt_and_then pt_write_text pt_schedule)

lemma pt_loopRestart: "pending_tracked s \<Longrightarrow> pending_tracked (loopRestart j sl s)"
  using pt_loopRestart_body [of s j sl]
  by (cases "loopRestart_body j sl s") (simp_all add: loopRestart_def)

lemma pt_clear_loop: "pending_tracked s \<Longrightarrow> pending_tracked (clear_loop s j)"
  by (auto simp: pending_tracked_def clear_loop_def clearTimeout_def list_all_iff Let_def
           split: option.splits)

lemma pt_start_item_body:
  "pending_tracked s \<Longrightarrow> pending_tracked (final (start_item_body sl s j))"
  unfolding start_item_body_def Let_def
  by (auto intro!: pt_and_then pt_write_text pt_schedule)

lemma pt_start_item: "pending_tracked s \<Longrightarrow> pending_tracked (start_item sl s j)"
  using pt_start_item_body [of s sl j]
  by (cases "start_item_body sl s j") (simp_all add: start_item_def)

lemma pt_foldl_clear: "pending_tracked s \<Longrightarrow> pending_tracked (foldl clear_loop s js)"
  by (induction js arbitrary: s) (simp_all add: pt_clear_loop)

lemma pt_foldl_start: "pending_tracked s \<Longrightarrow> pending_tracked (foldl (start_item sl) s js)"
  by (induction js arbitrary: s) (simp_all add: pt_start_item)

lemma pt_on_entry: "pending_tracked s \<Longrightarrow> pending_tracked (on_entry s e)"
  by (simp add: on_entry_def Let_def pt_foldl_clear pt_foldl_start)

lemma pt_observer_callback: "pending_tracked s \<Longrightarrow> pending_tracked (observer_callback es s)"
  unfolding observer_callback_def
  by (induction es arbitrary: s) (simp_all add: pt_on_entry)

lemma pt_fire: "pending_tracked s \<Longrightarrow> pending_tracked (fire t s)"
proof -
  assume a: "pending_tracked s"
  let ?s1 = "s\<lparr>timers := filter (\<lambda>u. tid u \<noteq> tid t) (timers s), now := max (now s) (due t)\<rparr>"
  from a have "pending_tracked ?s1"
    by (auto simp: pending_tracked_def list_all_iff)
  then show ?thesis
    by (simp add: fire_def run_callback_def pt_typeText pt_loopRestart split: callback.splits)
qed

lemma pt_fire_next: "pending_tracked s \<Longrightarrow> pending_tracked (fire_next s)"
  by (simp add: fire_next_def pt_fire split: option.splits)

lemma foldl_clearTimeout:
  "foldl (\<lambda>s h. clearTimeout h s) s hs
     = s\<lparr>timers := filter (\<lambda>t. tid t \<notin> set hs) (timers s)\<rparr>"
proof (induction hs arbitrary: s)
  case Nil
  show ?case by simp
next
  case (Cons h hs)
  have "foldl (\<lambda>s h. clearTimeout h s) s (h # hs)
      = (clearTimeout h s)\<lparr>timers :=
           filter (\<lambda>t. tid t \<notin> set hs) (timers (clearTimeout h s))\<rparr>"
    by (simp only: foldl_Cons Cons.IH)
  also have "\<dots> = s\<lparr>timers := filter (\<lambda>t. tid t \<notin> set (h # hs)) (timers s)\<rparr>"
    by (simp add: clearTimeout_def conj_commute)
  finally show ?case .
qed

lemma destroy_eq:
  "destroy s = s\<lparr>timers := filter (\<lambda>t. tid t \<notin> set (timeoutIds s)) (timers s),
                 timeoutIds := []\<rparr>"
  by (simp add: destroy_def foldl_clearTimeout)

lemma pt_destroy: "pending_tracked s \<Longrightarrow> pending_tracked (destroy s)"
  by (auto simp: destroy_eq pending_tracked_def list_all_iff)

lemma pt_init: "pending_tracked s \<Longrightarrow> pending_tracked (init doc s)"
  by (simp add: init_def pending_tracked_def observe_all_def console_log_def)

lemma pt_constructor: "pending_tracked (constructor opts)"
  by (simp add: pending_tracked_def constructor_def)

lemma reachable_pending_tracked: "reachable s \<Longrightarrow> pending_tracked s"
proof (induction rule: reachable.induct)
  case (start doc opts)
  show ?case by (rule pt_init) (rule pt_constructor)
next
  case (notify s entries)
  then show ?case by (simp add: pt_observer_callback)
next
  case (timeout s)
  then show ?case by (simp add: pt_fire_next)
next
  case (wait s t)
  then show ?case by (simp add: pending_tracked_def)
next
  case (unload s)
  then show ?case by (simp add: pt_destroy)
qed

subsection \<open>The page with one slide, step by step\<close>

lemmas fixture_defs = demo_state_def demo_item_def tm_def demo_options_def text_element_def
    constructor_def num_or_def str_or_def

lemmas step_defs =
    write_text_def append_cursor_def set_textContent_def appendCursor_def and_then_def upd_def schedule_def
    setTimeout_def set_add_def set_delete_def clearTimeout_def fire_next_def fire_def run_callback_def
    typeText_def typeText_body_def loopRestart_def loopRestart_body_def arm_loop_def allDone_def truthy_def
    console_log_def Let_def

lemmas init_defs = init_def slideGroups_def group_step_def track_group_def track_def
    observe_all_def set_add_def enumerate_eq_zip upt_rec

lemmas observer_defs = observer_callback_def on_entry_def slideItems_of_def upt_rec
    start_item_def start_item_body_def clear_loop_def

lemma funpow_unroll:
  "(f ^^ 1) x = f x" "(f ^^ 2) x = f ((f ^^ 1) x)" "(f ^^ 3) x = f ((f ^^ 2) x)"
  "(f ^^ 4) x = f ((f ^^ 3) x)" "(f ^^ 5) x = f ((f ^^ 4) x)" "(f ^^ 6) x = f ((f ^^ 5) x)"
  "(f ^^ 7) x = f ((f ^^ 6) x)" "(f ^^ 8) x = f ((f ^^ 7) x)"
  by (simp_all add: eval_nat_numeral)

lemma hi_yo_init:
  "hi_yo =
    demo_state 0 1
      [demo_item 0 ''Hi'' [] [TextNode ''Hi''] False None,
       demo_item 1 ''Yo'' [] [TextNode ''Yo''] False None]
      []
      []"
  by (simp add: hi_yo_def fixture_defs init_defs)

lemma hi_yo_at0:
  "hi_yo_visible =
    demo_state 0 3
      [demo_item 0 ''Hi'' [] [] True None,
       demo_item 1 ''Yo'' [] [] True None]
      [1, 2]
      [tm 1 0 (TypeText 0 [0, 1]), tm 2 5 (TypeText 1 [0, 1])]"
  unfolding hi_yo_visible_def hi_yo_init
  by (simp add: observer_defs fixture_defs step_defs)

lemma hi_yo_at1:
  "(fire_next ^^ 1) hi_yo_visible =
    demo_state 0 4
      [demo_item 0 ''Hi'' ''H'' [TextNode ''H'', CursorSpan ''|''] True None,
       demo_item 1 ''Yo'' [] [] True None]
      [1, 2, 3]
      [tm 2 5 (TypeText 1 [0, 1]), tm 3 10 (TypeText 0 [0, 1])]"
  unfolding funpow_unroll(1) hi_yo_at0
  by (simp add: fixture_defs step_defs)

lemma hi_yo_at2:
  "(fire_next ^^ 2) hi_yo_visible =
    demo_state 5 5
      [demo_item 0 ''Hi'' ''H'' [TextNode ''H'', CursorSpan ''|''] True None,
       demo_item 1 ''Yo'' ''Y'' [TextNode ''Y'', CursorSpan ''|''] True None]
      [1, 2, 3, 4]
      [tm 3 10 (TypeText 0 [0, 1]), tm 4 15 (TypeText 1 [0, 1])]"
  unfolding funpow_unroll(2) hi_yo_at1
  by (simp add: fixture_defs step_defs)

lemma hi_yo_at3:
  "(fire_next ^^ 3) hi_yo_visible =
    demo_state 10 6
      [demo_item 0 ''Hi'' ''Hi'' [TextNode ''Hi'', CursorSpan ''|''] True None,
       demo_item 1 ''Yo'' ''Y'' [TextNode ''Y'', CursorSpan ''|''] True None]
      [1, 2, 3, 4, 5]
      [tm 4 15 (TypeText 1 [0, 1]), tm 5 20 (TypeText 0 [0, 1])]"
  unfolding funpow_unroll(3) hi_yo_at2
  by (simp add: fixture_defs step_defs)

lemma hi_yo_at4:
  "(fire_next ^^ 4) hi_yo_visible =
    demo_state 15 7
      [demo_item 0 ''Hi'' ''Hi'' [TextNode ''Hi'', CursorSpan ''|''] True None,
       demo_item 1 ''Yo'' ''Yo'' [TextNode ''Yo'', CursorSpan ''|''] True None]
      [1, 2, 3, 4, 5, 6]
      [tm 5 20 (TypeText 0 [0, 1]), tm 6 25 (TypeText 1 [0, 1])]"
  unfolding funpow_unroll(4) hi_yo_at3
  by (simp add: fixture_defs step_defs)

lemma hi_yo_at5:
  "(fire_next ^^ 5) hi_yo_visible =
    demo_state 20 9
      [demo_item 0 ''Hi'' ''Hi'' [TextNode ''Hi''] True (Some 7),
       demo_item 1 ''Yo'' ''Yo'' [TextNode ''Yo'', CursorSpan ''|''] True (Some 8)]
      [1, 2, 3, 4, 5, 6, 7, 8]
      [tm 6 25 (TypeText 1 [0, 1]), tm 7 120 (LoopRestart 0 [0, 1]), tm 8 120 (LoopRestart 1 [0, 1])]"
  unfolding funpow_unroll(5) hi_yo_at4
  by (simp add: fixture_defs step_defs)

lemma hi_yo_at6:
  "(fire_next ^^ 6) hi_yo_visible =
    demo_state 25 9
      [demo_item 0 ''Hi'' ''Hi'' [TextNode ''Hi''] True (Some 7),
       demo_item 1 ''Yo'' ''Yo'' [TextNode ''Yo''] True (Some 8)]
      [1, 2, 3, 4, 5, 6, 7, 8]
      [tm 7 120 (LoopRestart 0 [0, 1]), tm 8 120 (LoopRestart 1 [0, 1])]"
  unfolding funpow_unroll(6) hi_yo_at5
  by (simp add: fixture_defs step_defs)

lemma hi_yo_at7:
  "(fire_next ^^ 7) hi_yo_visible =
    demo_state 120 10
      [demo_item 0 ''Hi'' [] [] True None,
       demo_item 1 ''Yo'' ''Yo'' [TextNode ''Yo''] True (Some 8)]
      [1, 2, 3, 4, 5, 6, 7, 8, 9]
      [tm 8 120 (LoopRestart 1 [0, 1]), tm 9 120 (TypeText 0 [0, 1])]"
  unfolding funpow_unroll(7) hi_yo_at6
  by (simp add: fixture_defs step_defs)

lemma hi_yo_at8:
  "(fire_next ^^ 8) hi_yo_visible =
    demo_state 120 11
      [demo_item 0 ''Hi'' [] [] True None,
       demo_item 1 ''Yo'' [] [] True None]
      [1, 2, 3, 4, 5, 6, 7, 8, 9, 10]
      [tm 9 120 (TypeText 0 [0, 1]), tm 10 125 (TypeText 1 [0, 1])]"
  unfolding funpow_unroll(8) hi_yo_at7
  by (simp add: fixture_defs step_defs)

lemma hi_yo_again0:
  "hi_yo_reentered =
    demo_state 25 11
      [demo_item 0 ''Hi'' [] [] True (Some 7),
       demo_item 1 ''Yo'' [] [] True (Some 8)]
      [1, 2, 3, 4, 5, 6, 9, 10]
      [tm 9 25 (TypeText 0 [0, 1]), tm 10 30 (TypeText 1 [0, 1])]"
  unfolding hi_yo_reentered_def hi_yo_at6
  by (simp add: observer_defs fixture_defs step_defs)

lemma hi_yo_again1:
  "(fire_next ^^ 1) hi_yo_reentered =
    demo_state 25 12
      [demo_item 0 ''Hi'' ''H'' [TextNode ''H'', CursorSpan ''|''] True (Some 7),
       demo_item 1 ''Yo'' [] [] True (Some 8)]
      [1, 2, 3, 4, 5, 6, 9, 10, 11]
      [tm 10 30 (TypeText 1 [0, 1]), tm 11 35 (TypeText 0 [0, 1])]"
  unfolding funpow_unroll(1) hi_yo_again0
  by (simp add: fixture_defs step_defs)

lemma hi_yo_again2:
  "(fire_next ^^ 2) hi_yo_reentered =
    demo_state 30 13
      [demo_item 0 ''Hi'' ''H'' [TextNode ''H'', CursorSpan ''|''] True (Some 7),
       demo_item 1 ''Yo'' ''Y'' [TextNode ''Y'', CursorSpan ''|''] True (Some 8)]
      [1, 2, 3, 4, 5, 6, 9, 10, 11, 12]
      [tm 11 35 (TypeText 0 [0, 1]), tm 12 40 (TypeText 1 [0, 1])]"
  unfolding funpow_unroll(2) hi_yo_again1
  by (simp add: fixture_defs step_defs)

lemma hi_yo_again3:
  "(fire_next ^^ 3) hi_yo_reentered =
    demo_state 35 14
      [demo_item 0 ''Hi'' ''Hi'' [TextNode ''Hi'', CursorSpan ''|''] True (Some 7),
       demo_item 1 ''Yo'' ''Y'' [TextNode ''Y'', CursorSpan ''|''] True (Some 8)]
      [1, 2, 3, 4, 5, 6, 9, 10, 11, 12, 13]
      [tm 12 40 (TypeText 1 [0, 1]), tm 13 45 (TypeText 0 [0, 1])]"
  unfolding funpow_unroll(3) hi_yo_again2
  by (simp add: fixture_defs step_defs)

lemma hi_yo_again4:
  "(fire_next ^^ 4) hi_yo_reentered =
    demo_state 40 15
      [demo_item 0 ''Hi'' ''Hi'' [TextNode ''Hi'', CursorSpan ''|''] True (Some 7),
       demo_item 1 ''Yo'' ''Yo'' [TextNode ''Yo'', CursorSpan ''|''] True (Some 8)]
      [1, 2, 3, 4, 5, 6, 9, 10, 11, 12, 13, 14]
      [tm 13 45 (TypeText 0 [0, 1]), tm 14 50 (TypeText 1 [0, 1])]"
  unfolding funpow_unroll(4) hi_yo_again3
  by (simp add: fixture_defs step_defs)

lemma hi_yo_again5:
  "(fire_next ^^ 5) hi_yo_reentered =
    demo_state 45 15
      [demo_item 0 ''Hi'' ''Hi'' [TextNode ''Hi''] True (Some 7),
       demo_item 1 ''Yo'' ''Yo'' [TextNode ''Yo'', CursorSpan ''|''] True (Some 8)]
      [1, 2, 3, 4, 5, 6, 9, 10, 11, 12, 13, 14]
      [tm 14 50 (TypeText 1 [0, 1])]"
  unfolding funpow_unroll(5) hi_yo_again4
  by (simp add: fixture_defs step_defs)

lemma hi_yo_again6:
  "(fire_next ^^ 6) hi_yo_reentered =
    demo_state 50 15
      [demo_item 0 ''Hi'' ''Hi'' [TextNode ''Hi''] True (Some 7),
       demo_item 1 ''Yo'' ''Yo'' [TextNode ''Yo''] True (Some 8)]
      [1, 2, 3, 4, 5, 6, 9, 10, 11, 12, 13, 14]
      []"
  unfolding funpow_unroll(6) hi_yo_again5
  by (simp add: fixture_defs step_defs)

lemma reachable_hi_yo_visible: "reachable hi_yo_visible"
  unfolding hi_yo_visible_def hi_yo_def
  by (rule reachable.notify) (rule reachable.start)

subsection \<open>Teardown\<close>

text \<open>
  C8. \<^verbatim>\<open>destroy\<close> cancels every timer that is still pending and empties the handle
  set: in every state the page can reach, no timer is pending afterwards. Calling it a
  second time changes nothing, and on an engine that never scheduled a timer (fresh from
  the constructor, or after \<^verbatim>\<open>init\<close> alone) it returns the state as it was.
\<close>

theorem destroy_cancels_all_idempotent:
  assumes "reachable s"
  shows "timers (destroy s) = [] \<and> timeoutIds (destroy s) = []
       \<and> destroy (destroy s) = destroy s
       \<and> destroy (constructor opts) = constructor opts
       \<and> destroy (init doc (constructor opts)) = init doc (constructor opts)"
proof -
  from assms have "pending_tracked s"
    by (rule reachable_pending_tracked)
  then have "timers (destroy s) = []"
    by (auto simp: destroy_eq pending_tracked_def list_all_iff filter_empty_conv)
  moreover have "destroy (destroy s) = destroy s"
    by (simp add: destroy_eq)
  moreover have "destroy (constructor opts) = constructor opts"
    by (simp add: destroy_eq constructor_def)
  moreover have "destroy (init doc (constructor opts)) = init doc (constructor opts)"
    by (simp add: destroy_eq init_def constructor_def observe_all_def console_log_def)
  moreover have "timeoutIds (destroy s) = []"
    by (simp add: destroy_eq)
  ultimately show ?thesis
    by blast
qed

theorem destroy_cancels_all_idempotent_witness:
  "reachable hi_yo_visible \<and> map tid (timers hi_yo_visible) = [1, 2]
   \<and> timers (destroy hi_yo_visible) = [] \<and> timeoutIds (destroy hi_yo_visible) = []
   \<and> destroy (destroy hi_yo_visible) = destroy hi_yo_visible"
proof -
  have "map tid (timers hi_yo_visible) = [1, 2]"
    by (simp add: hi_yo_at0 demo_state_def tm_def)
  then show ?thesis
    using destroy_cancels_all_idempotent [OF reachable_hi_yo_visible] reachable_hi_yo_visible
    by simp
qed

subsection \<open>Handles stay in the set\<close>

lemmas keep_and_then = and_then_final [where P = "keeps A" for A]

lemma keep_upd [simp]: "keeps A (upd i f s) = keeps A s"
  by (simp add: keeps_def)

lemma keep_console_log [simp]: "keeps A (console_log m s) = keeps A s"
  by (simp add: keeps_def console_log_def)

lemma keep_write_text: "keeps A s \<Longrightarrow> keeps A (final (write_text i txt s))"
  by (simp add: write_text_def split: option.splits sum.splits)

lemma keep_append_cursor: "keeps A s \<Longrightarrow> keeps A (final (append_cursor i s))"
  by (simp add: append_cursor_def split: option.splits sum.splits)

lemma keep_schedule: "keeps A s \<Longrightarrow> keeps A (schedule f d s)"
  by (auto simp: keeps_def schedule_def setTimeout_def)

lemma keep_arm_loop: "keeps A s \<Longrightarrow> keeps A (arm_loop sl s j)"
  by (auto simp: keeps_def arm_loop_def setTimeout_def Let_def)

lemma keep_foldl_arm: "keeps A s \<Longrightarrow> keeps A (foldl (arm_loop sl) s js)"
  by (induction js arbitrary: s) (simp_all add: keep_arm_loop)

lemma keep_typeText_body: "keeps A s \<Longrightarrow> keeps A (final (typeText_body i sl s))"
  unfolding typeText_body_def Let_def
  by (auto intro!: keep_and_then keep_write_text keep_append_cursor keep_schedule keep_foldl_arm)

lemma keep_typeText: "keeps A s \<Longrightarrow> keeps A (typeText i sl s)"
  using keep_typeText_body [of A s i sl]
  by (cases "typeText_body i sl s") (simp_all add: typeText_def)

lemma keep_loopRestart_body: "keeps A s \<Longrightarrow> keeps A (final (loopRestart_body j sl s))"
  unfolding loopRestart_body_def Let_def
  by (auto intro!: keep_and_then keep_write_text keep_schedule)

lemma keep_loopRestart: "keeps A s \<Longrightarrow> keeps A (loopRestart j sl s)"
  using keep_loopRestart_body [of A s j sl]
  by (cases "loopRestart_body j sl s") (simp_all add: loopRestart_def)

lemma keep_fire: "keeps (set (timeoutIds s)) (fire t s)"
proof -
  let ?s1 = "s\<lparr>timers := filter (\<lambda>u. tid u \<noteq> tid t) (timers s), now := max (now s) (due t)\<rparr>"
  have "keeps (set (timeoutIds s)) ?s1"
    by (simp add: keeps_def)
  then show ?thesis
    by (simp add: fire_def run_callback_def keep_typeText keep_loopRestart split: callback.splits)
qed

lemma keep_fire_next: "keeps (set (timeoutIds s)) (fire_next s)"
  by (simp add: fire_next_def keep_fire split: option.splits) (simp add: keeps_def)




subsection \<open>The timeline of the page\<close>

text \<open>
  C2, as claimed, fails: the start delay of element 0 is \<open>0 * staggerDelay\<close>, so its
  first character is written at t=0, not t=5; and at t=15 element 0 still shows the
  cursor, since the cursor goes in the step after the last character.
\<close>

theorem hi_yo_first_character_counterexample:
  "now ((fire_next ^^ 1) hi_yo_visible) = 0
   \<and> map_option children (element (elements ((fire_next ^^ 1) hi_yo_visible) ! 0))
       = Some [TextNode ''H'', CursorSpan ''|'']
   \<and> now ((fire_next ^^ 4) hi_yo_visible) = 15
   \<and> map_option children (element (elements ((fire_next ^^ 4) hi_yo_visible) ! 0))
       = Some [TextNode ''Hi'', CursorSpan ''|'']"
  unfolding hi_yo_at1 hi_yo_at4
  by (simp add: demo_state_def demo_item_def)

text \<open>
  C2, amended. After the trigger at t=0 the timers fire in this order: element 0 writes
  "H" and the cursor at t=0, element 1 "Y" at t=5, element 0 "Hi" and the cursor at t=10,
  element 1 "Yo" and the cursor at t=15; at t=20 element 0 writes "Hi" alone and, every
  text being fully revealed, arms the loop timers of both elements for t=120; at t=25
  element 1 writes "Yo" alone. At t=120 both loop timers fire: element 0 is cleared and
  restarts at 120+0, element 1 is cleared and restarts at 120+5.
\<close>

theorem hi_yo_timeline:
  "map (\<lambda>k. snapshot ((fire_next ^^ k) hi_yo_visible)) [1, 2, 3, 4, 5, 6, 7, 8] =
    [(0, [Some [TextNode ''H'', CursorSpan ''|''], Some []],
         [(2, 5, TypeText 1 [0, 1]), (3, 10, TypeText 0 [0, 1])]),
     (5, [Some [TextNode ''H'', CursorSpan ''|''], Some [TextNode ''Y'', CursorSpan ''|'']],
         [(3, 10, TypeText 0 [0, 1]), (4, 15, TypeText 1 [0, 1])]),
     (10, [Some [TextNode ''Hi'', CursorSpan ''|''], Some [TextNode ''Y'', CursorSpan ''|'']],
         [(4, 15, TypeText 1 [0, 1]), (5, 20, TypeText 0 [0, 1])]),
     (15, [Some [TextNode ''Hi'', CursorSpan ''|''], Some [TextNode ''Yo'', CursorSpan ''|'']],
         [(5, 20, TypeText 0 [0, 1]), (6, 25, TypeText 1 [0, 1])]),
     (20, [Some [TextNode ''Hi''], Some [TextNode ''Yo'', CursorSpan ''|'']],
         [(6, 25, TypeText 1 [0, 1]), (7, 120, LoopRestart 0 [0, 1]),
          (8, 120, LoopRestart 1 [0, 1])]),
     (25, [Some [TextNode ''Hi''], Some [TextNode ''Yo'']],
         [(7, 120, LoopRestart 0 [0, 1]), (8, 120, LoopRestart 1 [0, 1])]),
     (120, [Some [], Some [TextNode ''Yo'']],
         [(8, 120, LoopRestart 1 [0, 1]), (9, 120, TypeText 0 [0, 1])]),
     (120, [Some [], Some []],
         [(9, 120, TypeText 0 [0, 1]), (10, 125, TypeText 1 [0, 1])])]"
  unfolding list.map hi_yo_at1 hi_yo_at2 hi_yo_at3 hi_yo_at4 hi_yo_at5 hi_yo_at6 hi_yo_at7 hi_yo_at8
  by (simp add: snapshot_def demo_state_def demo_item_def tm_def)

subsection \<open>The loop after a second visibility trigger\<close>

text \<open>
  C1. After the first cycle the loop timers of both elements are pending. A second
  visibility trigger cancels them but leaves their handles in \<open>loopTimeout\<close>; the
  texts are typed again, every element reaches its full length, and no loop timer is
  armed: no timer is pending at all.
\<close>

theorem loop_never_rearmed_after_reentry:
  "allDone [0, 1] ((fire_next ^^ 6) hi_yo_visible)
   \<and> map cb (timers ((fire_next ^^ 6) hi_yo_visible))
       = [LoopRestart 0 [0, 1], LoopRestart 1 [0, 1]]
   \<and> map loopTimeout (elements hi_yo_reentered) = [Some 7, Some 8]
   \<and> map tid (timers hi_yo_reentered) = [9, 10]
   \<and> allDone [0, 1] ((fire_next ^^ 6) hi_yo_reentered)
   \<and> timers ((fire_next ^^ 6) hi_yo_reentered) = []"
  unfolding hi_yo_at6 hi_yo_again6
  by (simp add: hi_yo_again0 allDone_def demo_state_def demo_item_def tm_def)

subsection \<open>Fields that writes and loop arming leave alone\<close>

lemma map_update_id: "(map f xs)[i := f (xs ! i)] = map f xs"
proof (cases "i < length xs")
  case True
  then show ?thesis by (simp add: list_update_same_conv)
next
  case False
  then have "length (map f xs) \<le> i" by simp
  then show ?thesis by (rule list_update_beyond)
qed

lemma map_update_same:
  assumes "f y = f (xs ! i)"
  shows "map f (xs[i := y]) = map f xs"
  by (simp add: map_update assms map_update_id)

lemma elements_simps [simp]:
  "elements (console_log m s) = elements s"
  "elements (schedule c d s) = elements s"
  "elements (clearTimeout h s) = elements s"
  by (simp_all add: console_log_def schedule_def setTimeout_def clearTimeout_def)

lemma upd_frame: "map f (elements (upd i g s)) = (map f (elements s))[i := f (g (elements s ! i))]"
  by (simp add: upd_def map_update)

lemma upd_frame_same:
  "f (g (elements s ! i)) = f (elements s ! i) \<Longrightarrow> map f (elements (upd i g s)) = map f (elements s)"
  by (simp add: upd_def map_update_same)

lemma write_text_frame:
  assumes "frame_field f"
  shows "map f (elements (final (write_text i txt s))) = map f (elements s)"
proof (cases "element (elements s ! i)")
  case None
  then show ?thesis by (simp add: write_text_def)
next
  case (Some n)
  with assms have "f ((elements s ! i)\<lparr>element := Some (n\<lparr>children := c\<rparr>)\<rparr>) = f (elements s ! i)"
    for c
    by (simp add: frame_field_def)
  with Some show ?thesis
    by (simp add: write_text_def set_textContent_def upd_frame_same)
qed

lemma append_cursor_frame:
  assumes "frame_field f"
  shows "map f (elements (final (append_cursor i s))) = map f (elements s)"
proof (cases "element (elements s ! i)")
  case None
  then show ?thesis by (simp add: append_cursor_def)
next
  case (Some n)
  with assms have "f ((elements s ! i)\<lparr>element := Some (n\<lparr>children := c\<rparr>)\<rparr>) = f (elements s ! i)"
    for c
    by (simp add: frame_field_def)
  with Some show ?thesis
    by (simp add: append_cursor_def appendCursor_def upd_frame_same)
qed

lemma arm_loop_keeps:
  assumes "\<And>it h. f (it\<lparr>loopTimeout := h\<rparr>) = f it"
  shows "map f (elements (arm_loop sl s j)) = map f (elements s)"
  by (simp add: arm_loop_def setTimeout_def upd_def Let_def map_update_same assms)

lemma foldl_arm_keeps:
  assumes "\<And>it h. f (it\<lparr>loopTimeout := h\<rparr>) = f it"
  shows "map f (elements (foldl (arm_loop sl) s js)) = map f (elements s)"
  by (induction js arbitrary: s) (simp_all add: arm_loop_keeps [where f = f, OF assms])

lemma foldl_arm_frame:
  assumes "frame_field f"
  shows "map f (elements (foldl (arm_loop sl) s js)) = map f (elements s)"
  using assms by (intro foldl_arm_keeps) (simp add: frame_field_def)

lemma and_then_frame:
  assumes "\<And>s'. map f (elements (final (k s'))) = map f (elements s')"
  shows "map f (elements (final (and_then r k))) = map f (elements (final r))"
  using assms by (cases r) (simp_all add: and_then_def)

lemma typeText_body_frame:
  assumes "frame_field f"
  shows "map f (elements (final (typeText_body i sl s)))
       = (map f (elements s))[i := f (typed (elements s ! i))]"
proof -
  let ?it = "elements s ! i"
  consider (skip) "\<not> isVisible ?it \<or> element ?it = None"
    | (type) "isVisible ?it" "element ?it \<noteq> None" "length (currentText ?it) < length (fullText ?it)"
    | (complete) "isVisible ?it" "element ?it \<noteq> None" "\<not> length (currentText ?it) < length (fullText ?it)"
    by blast
  then show ?thesis
  proof cases
    case skip
    then have "typeText_body i sl s = Done s" "typed ?it = ?it"
      by (auto simp: typeText_body_def typed_def)
    then show ?thesis by (simp add: map_update_id)
  next
    case type
    let ?s1 = "upd i (\<lambda>it. it\<lparr>currentText :=
                 currentText it @ [fullText it ! length (currentText it)]\<rparr>) s"
    have "map f (elements (final (typeText_body i sl s))) = map f (elements ?s1)"
      using type
      by (auto simp: typeText_body_def Let_def and_then_frame append_cursor_frame [OF assms]
            write_text_frame [OF assms])
    moreover have "typed ?it = ?it\<lparr>currentText :=
        currentText ?it @ [fullText ?it ! length (currentText ?it)]\<rparr>"
      using type by (simp add: typed_def)
    ultimately show ?thesis by (simp add: upd_frame)
  next
    case complete
    have "map f (elements (final (typeText_body i sl s))) = map f (elements s)"
      using complete
      by (auto simp: typeText_body_def Let_def and_then_frame foldl_arm_frame [OF assms]
            write_text_frame [OF assms])
    moreover have "typed ?it = ?it"
      using complete by (simp add: typed_def)
    ultimately show ?thesis by (simp add: map_update_id)
  qed
qed

lemma typeText_frame:
  assumes "frame_field f"
  shows "map f (elements (typeText i sl s)) = (map f (elements s))[i := f (typed (elements s ! i))]"
  using typeText_body_frame [OF assms, of i sl s]
  by (cases "typeText_body i sl s") (simp_all add: typeText_def)

lemma frame_field_simps [simp]:
  "frame_field currentText" "frame_field fullText" "frame_field isVisible"
  "frame_field slideElement" "frame_field staggerIndex" "frame_field text_fields"
  "frame_field (\<lambda>it. element it = None)"
  "frame_field (\<lambda>it. map_option node_id (element it))"
  "frame_field (\<lambda>it. map_option fault (element it))"
  by (simp_all add: frame_field_def text_fields_def)

lemma typeText_length [simp]: "length (elements (typeText i sl s)) = length (elements s)"
  using typeText_frame [of fullText i sl s] by (metis frame_field_simps(2) length_list_update length_map)


lemma loopRestart_frame:
  assumes "frame_field f"
  shows "map f (elements (loopRestart j sl s)) = (map f (elements s))[j := f (cleared (elements s ! j))]"
proof -
  from assms have "f (it\<lparr>loopTimeout := None\<rparr>) = f it" for it
    by (simp add: frame_field_def)
  then have "map f (elements (final (loopRestart_body j sl s)))
      = map f (elements (upd j (\<lambda>it. it\<lparr>currentText := []\<rparr>) s))"
    by (simp add: loopRestart_body_def Let_def and_then_frame upd_frame_same
          write_text_frame [OF assms])
  then have "map f (elements (final (loopRestart_body j sl s)))
      = (map f (elements s))[j := f (cleared (elements s ! j))]"
    by (simp add: upd_frame cleared_def)
  then show ?thesis
    by (cases "loopRestart_body j sl s") (simp_all add: loopRestart_def)
qed

lemma visible_update_id: "isVisible it \<Longrightarrow> it\<lparr>isVisible := True\<rparr> = it"
proof -
  assume "isVisible it"
  then have "it\<lparr>isVisible := True\<rparr> = it\<lparr>isVisible := isVisible it\<rparr>" by simp
  then show ?thesis by simp
qed

lemma start_item_frame:
  assumes "frame_field f"
  shows "map f (elements (start_item sl s j)) = (map f (elements s))[j := f (reset (elements s ! j))]"
proof -
  let ?s1 = "if \<not> isVisible (elements s ! j) then upd j (\<lambda>it. it\<lparr>isVisible := True\<rparr>) s else s"
  let ?s2 = "upd j (\<lambda>it. it\<lparr>currentText := []\<rparr>) ?s1"
  have "map f (elements (final (start_item_body sl s j))) = map f (elements ?s2)"
    by (simp add: start_item_body_def Let_def and_then_frame write_text_frame [OF assms])
  also have "\<dots> = (map f (elements s))[j := f (reset (elements s ! j))]"
  proof (cases "j < length (elements s)")
    case True
    then show ?thesis by (simp add: upd_def reset_def map_update visible_update_id)
  next
    case False
    then show ?thesis by (simp add: upd_def not_less list_update_beyond)
  qed
  finally show ?thesis
    by (cases "start_item_body sl s j") (simp_all add: start_item_def)
qed

lemma clear_loop_elements [simp]: "elements (clear_loop s j) = elements s"
  by (simp add: clear_loop_def Let_def split: option.splits)

lemma foldl_clear_loop_elements [simp]: "elements (foldl clear_loop s js) = elements s"
  by (induction js arbitrary: s) simp_all

lemma destroy_elements [simp]: "elements (destroy s) = elements s"
  by (simp add: destroy_eq)

subsection \<open>The revealed text is a prefix of the full text\<close>

lemma list_all_update:
  assumes "list_all Q xs" and "i < length xs \<Longrightarrow> Q y"
  shows "list_all Q (xs[i := y])"
proof (cases "i < length xs")
  case True
  with assms show ?thesis
    by (auto simp: list_all_iff dest: subsetD [OF set_update_subset_insert])
next
  case False
  with assms show ?thesis by (simp add: not_less list_update_beyond)
qed

lemma is_prefix_typed: "is_prefix (text_fields it) \<Longrightarrow> is_prefix (text_fields (typed it))"
  by (auto simp: is_prefix_def text_fields_def typed_def take_Suc_conv_app_nth)

lemma prefix_typeText: "prefix_ok s \<Longrightarrow> prefix_ok (typeText i sl s)"
  unfolding prefix_ok_def typeText_frame [OF frame_field_simps(6)]
  by (rule list_all_update) (simp_all add: list_all_length is_prefix_typed)

lemma prefix_loopRestart: "prefix_ok s \<Longrightarrow> prefix_ok (loopRestart j sl s)"
  unfolding prefix_ok_def loopRestart_frame [OF frame_field_simps(6)]
  by (rule list_all_update) (simp_all add: is_prefix_def text_fields_def cleared_def)

lemma prefix_start_item: "prefix_ok s \<Longrightarrow> prefix_ok (start_item sl s j)"
  unfolding prefix_ok_def start_item_frame [OF frame_field_simps(6)]
  by (rule list_all_update) (simp_all add: is_prefix_def text_fields_def reset_def)

lemma prefix_foldl_start: "prefix_ok s \<Longrightarrow> prefix_ok (foldl (start_item sl) s js)"
  by (induction js arbitrary: s) (simp_all add: prefix_start_item)

lemma prefix_on_entry: "prefix_ok s \<Longrightarrow> prefix_ok (on_entry s e)"
proof -
  assume a: "prefix_ok s"
  have "prefix_ok (foldl clear_loop s js)" for js
    using a by (simp add: prefix_ok_def)
  then show ?thesis
    by (simp add: on_entry_def Let_def prefix_foldl_start a)
qed

lemma prefix_observer_callback: "prefix_ok s \<Longrightarrow> prefix_ok (observer_callback es s)"
  unfolding observer_callback_def
  by (induction es arbitrary: s) (simp_all add: prefix_on_entry)

lemma prefix_fire: "prefix_ok s \<Longrightarrow> prefix_ok (fire t s)"
proof -
  assume a: "prefix_ok s"
  let ?s1 = "s\<lparr>timers := filter (\<lambda>u. tid u \<noteq> tid t) (timers s), now := max (now s) (due t)\<rparr>"
  from a have "prefix_ok ?s1"
    by (simp add: prefix_ok_def)
  then show ?thesis
    by (simp add: fire_def run_callback_def prefix_typeText prefix_loopRestart
          split: callback.splits)
qed

lemma prefix_fire_next: "prefix_ok s \<Longrightarrow> prefix_ok (fire_next s)"
  by (simp add: fire_next_def prefix_fire split: option.splits)

lemma track_currentText: "it \<in> set (track_group g) \<Longrightarrow> currentText it = []"
  by (auto simp: track_group_def track_def split: if_splits)

lemma prefix_init: "prefix_ok (init doc (constructor opts))"
  by (auto simp: prefix_ok_def init_def constructor_def observe_all_def console_log_def
        list_all_iff is_prefix_def text_fields_def dest: track_currentText)

lemma reachable_prefix_ok: "reachable s \<Longrightarrow> prefix_ok s"
proof (induction rule: reachable.induct)
  case (start doc opts)
  show ?case by (rule prefix_init)
next
  case (notify s entries)
  then show ?case by (simp add: prefix_observer_callback)
next
  case (timeout s)
  then show ?case by (simp add: prefix_fire_next)
next
  case (wait s t)
  then show ?case by (simp add: prefix_ok_def)
next
  case (unload s)
  then show ?case by (simp add: prefix_ok_def)
qed

subsection \<open>The item a call of typeText is made on\<close>

lemma typeText_nth:
  assumes "frame_field f" and "i < length (elements s)"
  shows "f (elements (typeText i sl s) ! i) = f (typed (elements s ! i))"
proof -
  have "f (elements (typeText i sl s) ! i) = map f (elements (typeText i sl s)) ! i"
    using assms(2) by simp
  also have "\<dots> = f (typed (elements s ! i))"
    using assms(2) by (simp add: typeText_frame [OF assms(1)])
  finally show ?thesis .
qed

subsection \<open>When a statement of a step throws\<close>

lemma upd_id: "upd i (\<lambda>it. it) s = s"
  by (simp add: upd_def)

lemma upd_upd: "upd i g (upd i h s) = upd i (\<lambda>it. if i < length (elements s) then g (h it) else it) s"
  by (cases "i < length (elements s)") (simp_all add: upd_def not_less list_update_beyond)

lemma write_text_thrown: "write_text i txt s = Thrown e s' \<Longrightarrow> s' = s"
  by (auto simp: write_text_def split: option.splits sum.splits)

lemma write_text_done: "write_text i txt s = Done s' \<Longrightarrow> \<exists>g. s' = upd i g s"
  by (auto simp: write_text_def split: option.splits sum.splits)

lemma append_cursor_thrown: "append_cursor i s = Thrown e s' \<Longrightarrow> s' = s"
  by (auto simp: append_cursor_def split: option.splits sum.splits)

lemma and_then_thrown:
  "and_then r k = Thrown e s' \<Longrightarrow> r = Thrown e s' \<or> (\<exists>s1. r = Done s1 \<and> k s1 = Thrown e s')"
  by (cases r) (simp_all add: and_then_def)

lemma typeText_body_thrown:
  assumes "typeText_body i sl s = Thrown e s'"
  shows "\<exists>g. s' = upd i g s"
proof -
  let ?it = "elements s ! i"
  let ?s1 = "upd i (\<lambda>it. it\<lparr>currentText :=
                 currentText it @ [fullText it ! length (currentText it)]\<rparr>) s"
  have "typeText_body i sl s = Done s" if "\<not> isVisible ?it \<or> element ?it = None"
    using that by (auto simp: typeText_body_def)
  with assms have v: "isVisible ?it" "element ?it \<noteq> None"
    by (metis outcome.distinct(1))+
  show ?thesis
  proof (cases "length (currentText ?it) < length (fullText ?it)")
    case True
    with assms v have "and_then (write_text i (currentText (elements ?s1 ! i)) ?s1) (\<lambda>s2.
            and_then (append_cursor i s2) (\<lambda>s3.
            Done (schedule (TypeText i sl) (typingSpeed s3) s3))) = Thrown e s'"
      by (simp add: typeText_body_def Let_def)
    then consider "write_text i (currentText (elements ?s1 ! i)) ?s1 = Thrown e s'"
      | s2 where "write_text i (currentText (elements ?s1 ! i)) ?s1 = Done s2"
          "append_cursor i s2 = Thrown e s'"
      by (auto dest!: and_then_thrown)
    then show ?thesis
    proof cases
      case 1
      then have "s' = ?s1" by (rule write_text_thrown)
      then show ?thesis by blast
    next
      case 2
      then obtain g where "s2 = upd i g ?s1" by (auto dest: write_text_done)
      moreover from 2 have "s' = s2" by (auto dest: append_cursor_thrown)
      ultimately show ?thesis by (auto simp: upd_upd)
    qed
  next
    case False
    with assms v have "and_then (write_text i (fullText ?it) s) (\<lambda>s1.
          Done (if allDone sl s1 \<and> \<not> truthy (loopTimeout (elements s1 ! i))
                then foldl (arm_loop sl) s1 sl else s1)) = Thrown e s'"
      by (simp add: typeText_body_def Let_def)
    then have "write_text i (fullText ?it) s = Thrown e s'"
      by (auto dest!: and_then_thrown)
    then have "s' = s" by (rule write_text_thrown)
    then have "s' = upd i (\<lambda>it. it) s" by (simp add: upd_id)
    then show ?thesis by blast
  qed
qed

subsection \<open>The observer callback, item by item\<close>

lemma upd_nth_other: "k \<noteq> j \<Longrightarrow> elements (upd j g s) ! k = elements s ! k"
  by (simp add: upd_def)

lemma upd_nth_same: "j < length (elements s) \<Longrightarrow> elements (upd j g s) ! j = g (elements s ! j)"
  by (simp add: upd_def)

lemma start_state:
  "upd j (\<lambda>it. it\<lparr>currentText := []\<rparr>)
     (if \<not> isVisible (elements s ! j) then upd j (\<lambda>it. it\<lparr>isVisible := True\<rparr>) s else s)
   = upd j reset s"
proof (cases "j < length (elements s)")
  case True
  then show ?thesis
    by (simp add: upd_def reset_def visible_update_id)
next
  case False
  then show ?thesis
    by (simp add: upd_def not_less list_update_beyond)
qed

lemma start_item_cases:
  "start_item sl s j =
     (case element (elements (upd j reset s) ! j) of
        None \<Rightarrow> console_log ''Error starting typewriter item:'' (upd j reset s)
      | Some n \<Rightarrow>
          if fault n = SetterThrows
          then console_log ''Error starting typewriter item:'' (upd j reset s)
          else schedule (TypeText j sl) (staggerIndex (elements s ! j) * staggerDelay s)
                 (upd j (\<lambda>it. it\<lparr>element := Some (n\<lparr>children := []\<rparr>)\<rparr>) (upd j reset s)))"
proof -
  have idx: "staggerIndex (elements (upd j g (upd j reset s)) ! j) = staggerIndex (elements s ! j)"
    if "\<And>it. staggerIndex (g it) = staggerIndex it" for g
    using that
    by (cases "j < length (elements s)") (simp_all add: upd_def reset_def not_less list_update_beyond)
  show ?thesis
    unfolding start_item_def start_item_body_def Let_def start_state
    by (simp add: write_text_def set_textContent_def and_then_def idx
          split: option.splits)
qed

lemma start_item_other: "k \<noteq> j \<Longrightarrow> elements (start_item sl s j) ! k = elements s ! k"
  by (simp add: start_item_cases upd_nth_other split: option.splits)

lemma start_item_length [simp]: "length (elements (start_item sl s j)) = length (elements s)"
  by (simp add: start_item_cases split: option.splits)

lemma start_item_consts [simp]:
  "now (start_item sl s j) = now s" "staggerDelay (start_item sl s j) = staggerDelay s"
  by (simp_all add: start_item_cases schedule_def setTimeout_def console_log_def
        split: option.splits)

lemma start_item_timers:
  "timers (start_item sl s j) = timers s
   \<or> timers (start_item sl s j)
       = timers s @ [\<lparr>tid = nextId s,
                      due = now s + staggerIndex (elements s ! j) * staggerDelay s,
                      cb = TypeText j sl\<rparr>]"
  by (simp add: start_item_cases schedule_def setTimeout_def console_log_def
        split: option.splits)

lemma start_item_healthy:
  assumes "j < length (elements s)" and "element (elements s ! j) = Some n"
    and "fault n \<noteq> SetterThrows"
  shows "elements (start_item sl s j) ! j
           = (reset (elements s ! j))\<lparr>element := Some (n\<lparr>children := []\<rparr>)\<rparr>"
    and "timers (start_item sl s j)
           = timers s @ [\<lparr>tid = nextId s,
                          due = now s + staggerIndex (elements s ! j) * staggerDelay s,
                          cb = TypeText j sl\<rparr>]"
  using assms
  by (simp_all add: start_item_cases upd_def reset_def schedule_def setTimeout_def)

lemma foldl_start_other:
  "k \<notin> set js \<Longrightarrow> elements (foldl (start_item sl) s js) ! k = elements s ! k"
  by (induction js arbitrary: s) (simp_all add: start_item_other)

lemma foldl_start_length [simp]:
  "length (elements (foldl (start_item sl) s js)) = length (elements s)"
  by (induction js arbitrary: s) simp_all

lemma foldl_start_timers:
  "t \<in> set (timers (foldl (start_item sl) s js))
   \<Longrightarrow> t \<in> set (timers s) \<or> (\<exists>j \<in> set js. cb t = TypeText j sl)"
proof (induction js arbitrary: s)
  case Nil
  then show ?case by simp
next
  case (Cons j js)
  from Cons.prems have "t \<in> set (timers (foldl (start_item sl) (start_item sl s j) js))"
    by simp
  then have "t \<in> set (timers (start_item sl s j)) \<or> (\<exists>j \<in> set js. cb t = TypeText j sl)"
    by (rule Cons.IH)
  then show ?case
    using start_item_timers [of sl s j] by auto
qed

lemma foldl_start_timers_grow:
  "set (timers s) \<subseteq> set (timers (foldl (start_item sl) s js))"
proof (induction js arbitrary: s)
  case Nil
  show ?case by simp
next
  case (Cons j js)
  have "set (timers s) \<subseteq> set (timers (start_item sl s j))"
    using start_item_timers [of sl s j] by auto
  also have "\<dots> \<subseteq> set (timers (foldl (start_item sl) (start_item sl s j) js))"
    by (rule Cons.IH)
  finally show ?case by simp
qed

subsection \<open>A trigger and the other groups\<close>

lemma clear_loop_timers:
  "t \<in> set (timers (clear_loop s j))
   \<longleftrightarrow> t \<in> set (timers s) \<and> (loopTimeout (elements s ! j) = Some (tid t) \<longrightarrow> tid t = 0)"
  by (auto simp: clear_loop_def clearTimeout_def Let_def split: option.splits)

lemma foldl_clear_timers:
  "t \<in> set (timers (foldl clear_loop s js))
   \<longleftrightarrow> t \<in> set (timers s)
       \<and> (\<forall>j \<in> set js. loopTimeout (elements s ! j) = Some (tid t) \<longrightarrow> tid t = 0)"
proof (induction js arbitrary: s)
  case Nil
  show ?case by simp
next
  case (Cons j js)
  show ?case
    by (auto simp: Cons.IH clear_loop_timers)
qed

lemma clear_loop_consts [simp]:
  "now (clear_loop s j) = now s" "staggerDelay (clear_loop s j) = staggerDelay s"
  by (simp_all add: clear_loop_def clearTimeout_def Let_def split: option.splits)

lemma foldl_clear_consts [simp]:
  "now (foldl clear_loop s js) = now s" "staggerDelay (foldl clear_loop s js) = staggerDelay s"
  by (induction js arbitrary: s) simp_all

lemma slideItems_of_iff:
  "j \<in> set (slideItems_of target s)
   \<longleftrightarrow> j < length (elements s) \<and> slideElement (elements s ! j) = target"
  by (auto simp: slideItems_of_def)

lemma slideItems_of_distinct: "distinct (slideItems_of target s)"
  by (simp add: slideItems_of_def)

lemma on_entry_True:
  "on_entry s (target, True)
     = foldl (start_item (slideItems_of target s))
         (foldl clear_loop s (slideItems_of target s)) (slideItems_of target s)"
  by (simp add: on_entry_def Let_def)

text \<open>
  C9. A visibility trigger for one container leaves every element of another container
  exactly as it was, and every timer pending afterwards either was pending before or
  calls \<^verbatim>\<open>typeText\<close> on an element of the triggered container.
\<close>

theorem trigger_touches_only_its_group:
  "(\<forall>k < length (elements s). slideElement (elements s ! k) \<noteq> target
       \<longrightarrow> elements (on_entry s (target, True)) ! k = elements s ! k)
   \<and> (\<forall>t \<in> set (timers (on_entry s (target, True))).
         t \<in> set (timers s)
         \<or> (\<exists>j < length (elements s). slideElement (elements s ! j) = target
               \<and> cb t = TypeText j (slideItems_of target s)))"
proof -
  let ?sl = "slideItems_of target s"
  let ?c = "foldl clear_loop s ?sl"
  have "elements (on_entry s (target, True)) ! k = elements s ! k"
    if "k < length (elements s)" "slideElement (elements s ! k) \<noteq> target" for k
  proof -
    from that have "k \<notin> set ?sl" by (simp add: slideItems_of_iff)
    then have "elements (foldl (start_item ?sl) ?c ?sl) ! k = elements ?c ! k"
      by (rule foldl_start_other)
    then show ?thesis by (simp add: on_entry_True)
  qed
  moreover have "t \<in> set (timers s)
         \<or> (\<exists>j < length (elements s). slideElement (elements s ! j) = target
               \<and> cb t = TypeText j ?sl)"
    if "t \<in> set (timers (on_entry s (target, True)))" for t
  proof -
    from that have "t \<in> set (timers ?c) \<or> (\<exists>j \<in> set ?sl. cb t = TypeText j ?sl)"
      unfolding on_entry_True by (rule foldl_start_timers)
    then show ?thesis
      by (auto simp: foldl_clear_timers slideItems_of_iff)
  qed
  ultimately show ?thesis by blast
qed

lemma two_slides_init:
  "two_slides =
    demo_state 0 1
      [demo_item 0 ''Hi'' [] [TextNode ''Hi''] False None,
       (demo_item 1 ''Yo'' [] [TextNode ''Yo''] False None)\<lparr>slideElement := 8, staggerIndex := 0\<rparr>]
      []
      []\<lparr>observed := [7, 8]\<rparr>"
  by (simp add: two_slides_def fixture_defs init_defs)

lemma two_slides_entered:
  "on_entry two_slides (7, True) =
    demo_state 0 2
      [demo_item 0 ''Hi'' [] [] True None,
       (demo_item 1 ''Yo'' [] [TextNode ''Yo''] False None)\<lparr>slideElement := 8, staggerIndex := 0\<rparr>]
      [1]
      [tm 1 0 (TypeText 0 [0])]\<lparr>observed := [7, 8]\<rparr>"
  unfolding two_slides_init
  by (simp add: observer_defs fixture_defs step_defs)

theorem trigger_touches_only_its_group_witness:
  "1 < length (elements two_slides) \<and> slideElement (elements two_slides ! 1) \<noteq> 7
   \<and> elements (on_entry two_slides (7, True)) ! 1 = elements two_slides ! 1
   \<and> tm 1 0 (TypeText 0 [0]) \<in> set (timers (on_entry two_slides (7, True)))
   \<and> tm 1 0 (TypeText 0 [0]) \<notin> set (timers two_slides)
   \<and> (\<exists>j < length (elements two_slides). slideElement (elements two_slides ! j) = 7
         \<and> cb (tm 1 0 (TypeText 0 [0])) = TypeText j (slideItems_of 7 two_slides))"
proof -
  have a: "1 < length (elements two_slides)" "slideElement (elements two_slides ! 1) \<noteq> 7"
    "tm 1 0 (TypeText 0 [0]) \<notin> set (timers two_slides)"
    by (simp_all add: two_slides_init demo_state_def demo_item_def)
  have b: "tm 1 0 (TypeText 0 [0]) \<in> set (timers (on_entry two_slides (7, True)))"
    by (simp add: two_slides_entered demo_state_def)
  from a b trigger_touches_only_its_group [of two_slides 7] show ?thesis
    by blast
qed

subsection \<open>The pending loop timers are the handles the elements hold\<close>

lemma tid_inj:
  assumes "ids_ok T I" and "t \<in> set T" and "u \<in> set T" and "tid t = tid u"
  shows "t = u"
proof -
  from assms(1) have "distinct (map tid T)"
    by (simp add: ids_ok_def strict_sorted_iff)
  with assms(2,3,4) show ?thesis
    by (auto simp: distinct_map dest: inj_onD)
qed

lemma earliest_min:
  assumes "sorted_wrt (<) (map tid T)" and "earliest T = Some u"
  shows "u \<in> set T \<and> (\<forall>x \<in> set T. due u < due x \<or> (due u = due x \<and> tid u \<le> tid x))"
  using assms
proof (induction T arbitrary: u)
  case Nil
  then show ?case by simp
next
  case (Cons t ts)
  from Cons.prems(1) have s: "sorted_wrt (<) (map tid ts)" and lt: "\<forall>y \<in> set ts. tid t < tid y"
    by simp_all
  show ?case
  proof (cases "earliest ts")
    case None
    then have "ts = []" by (cases ts) (auto split: option.splits if_splits)
    with Cons.prems(2) show ?thesis by simp
  next
    case (Some v)
    from Cons.IH [OF s Some] have v: "v \<in> set ts"
      "\<forall>x \<in> set ts. due v < due x \<or> (due v = due x \<and> tid v \<le> tid x)"
      by simp_all
    show ?thesis
    proof (cases "due v < due t")
      case True
      with Some Cons.prems(2) have "u = v" by simp
      with v True show ?thesis by auto
    next
      case False
      with Some Cons.prems(2) have "u = t" by simp
      moreover have "due t < due x \<or> (due t = due x \<and> tid t \<le> tid x)" if "x \<in> set ts" for x
        using v(2) lt False that by (metis leI le_less_trans less_imp_le_nat not_less_iff_gr_or_eq)
      ultimately show ?thesis by auto
    qed
  qed
qed

subsection \<open>A timer is added at the end\<close>

lemma ids_ok_app:
  "ids_ok T I \<Longrightarrow> tid u = I \<Longrightarrow> ids_ok (T @ [u]) (Suc I)"
  by (auto simp: ids_ok_def sorted_wrt_append less_Suc_eq)

lemma handles_ok_app:
  "handles_ok T L I \<Longrightarrow> tid u = I \<Longrightarrow> handles_ok (T @ [u]) L (Suc I)"
  unfolding handles_ok_def by (auto simp: less_Suc_eq)

lemma recorded_app: "recorded T L \<Longrightarrow> \<not> is_loop (cb u) \<Longrightarrow> recorded (T @ [u]) L"
  by (simp add: recorded_def)

lemma groups_ok_app:
  "groups_ok T S \<Longrightarrow> cb_item (cb u) < length S
   \<Longrightarrow> cb_group (cb u) = members S (S ! cb_item (cb u)) \<Longrightarrow> groups_ok (T @ [u]) S"
  by (simp add: groups_ok_def)

lemma complete_mono: "complete T t \<Longrightarrow> set T \<subseteq> set T' \<Longrightarrow> complete T' t"
  unfolding complete_def by blast

lemma blocks_ok_app:
  assumes "blocks_ok T N" and "ids_ok T I" and "tid u = I" and "N \<le> due u"
    and "\<not> is_loop (cb u)"
  shows "blocks_ok (T @ [u]) N"
proof -
  have "complete (T @ [u]) t \<or> urgent (T @ [u]) N t" if t: "t \<in> set T" "is_loop (cb t)" for t
  proof -
    from assms(1) t have "complete T t \<or> urgent T N t" by (simp add: blocks_ok_def)
    then show ?thesis
    proof
      assume "complete T t"
      then have "complete (T @ [u]) t" by (rule complete_mono) auto
      then show ?thesis ..
    next
      assume u: "urgent T N t"
      from assms(2,3) t(1) have "tid t < tid u" by (simp add: ids_ok_def)
      moreover from u assms(4) have "due t \<le> due u" by (simp add: urgent_def)
      ultimately have "due t < due u \<or> (due u = due t \<and> tid t < tid u)" by auto
      with u have "urgent (T @ [u]) N t" by (simp add: urgent_def)
      then show ?thesis ..
    qed
  qed
  with assms(1,4,5) show ?thesis
    by (auto simp: blocks_ok_def)
qed

lemma contiguous_app:
  assumes "contiguous T" and "ids_ok T I" and "tid u = I" and "\<not> is_loop (cb u)"
  shows "contiguous (T @ [u])"
  unfolding contiguous_def
proof (intro ballI impI)
  fix t t' x
  assume m: "t \<in> set (T @ [u])" "t' \<in> set (T @ [u])" "x \<in> set (T @ [u])"
    and c: "is_loop (cb t) \<and> is_loop (cb t') \<and> cb_group (cb t) = cb_group (cb t')
            \<and> tid t < tid x \<and> tid x < tid t'"
  from m(1,2) c assms(4) have t: "t \<in> set T" "t' \<in> set T" by auto
  with assms(2,3) have "tid t' < tid u" by (simp add: ids_ok_def)
  with c have "x \<noteq> u" by auto
  with m(3) have "x \<in> set T" by simp
  with assms(1) t c show "is_loop (cb x) \<and> cb_group (cb x) = cb_group (cb t)"
    unfolding contiguous_def by blast
qed

lemma abs_inv_app:
  assumes "abs_inv T L S N I" and "tid u = I" and "N \<le> due u" and "\<not> is_loop (cb u)"
    and "cb_item (cb u) < length S" and "cb_group (cb u) = members S (S ! cb_item (cb u))"
  shows "abs_inv (T @ [u]) L S N (Suc I)"
proof -
  from assms(1) have a: "length L = length S" "ids_ok T I" "handles_ok T L I" "recorded T L"
    "groups_ok T S" "blocks_ok T N" "contiguous T"
    by (simp_all add: abs_inv_def)
  show ?thesis
    unfolding abs_inv_def
    using a assms(2-) ids_ok_app [OF a(2) assms(2)] handles_ok_app [OF a(3) assms(2)]
      recorded_app [OF a(4) assms(4)] groups_ok_app [OF a(5) assms(5,6)]
      blocks_ok_app [OF a(6) a(2) assms(2,3,4)] contiguous_app [OF a(7) a(2) assms(2,4)]
    by simp
qed

subsection \<open>Timers are removed\<close>

lemma ids_ok_filter: "ids_ok T I \<Longrightarrow> ids_ok (filter P T) I"
  by (auto simp: ids_ok_def sorted_wrt_map sorted_wrt_filter)

lemma handles_ok_filter: "handles_ok T L I \<Longrightarrow> handles_ok (filter P T) L I"
  by (auto simp: handles_ok_def)

lemma recorded_filter: "recorded T L \<Longrightarrow> recorded (filter P T) L"
  by (auto simp: recorded_def)

lemma groups_ok_filter: "groups_ok T S \<Longrightarrow> groups_ok (filter P T) S"
  by (auto simp: groups_ok_def)

lemma contiguous_filter: "contiguous T \<Longrightarrow> contiguous (filter P T)"
  unfolding contiguous_def
proof (intro ballI impI)
  fix t t' x
  assume a: "\<forall>t\<in>set T. \<forall>t'\<in>set T. \<forall>u\<in>set T.
          is_loop (cb t) \<and> is_loop (cb t') \<and> cb_group (cb t) = cb_group (cb t')
          \<and> tid t < tid u \<and> tid u < tid t'
          \<longrightarrow> is_loop (cb u) \<and> cb_group (cb u) = cb_group (cb t)"
    and m: "t \<in> set (filter P T)" "t' \<in> set (filter P T)" "x \<in> set (filter P T)"
    and c: "is_loop (cb t) \<and> is_loop (cb t') \<and> cb_group (cb t) = cb_group (cb t')
            \<and> tid t < tid x \<and> tid x < tid t'"
  from m have "t \<in> set T" "t' \<in> set T" "x \<in> set T" by simp_all
  with a c show "is_loop (cb x) \<and> cb_group (cb x) = cb_group (cb t)" by blast
qed

lemma urgent_filter: "urgent T N t \<Longrightarrow> N \<le> N' \<Longrightarrow> urgent (filter P T) N' t"
  by (auto simp: urgent_def)

text \<open>Removal keeps the blocks when every peer of a remaining loop timer remains.\<close>

lemma blocks_ok_filter:
  assumes "blocks_ok T N"
    and "\<And>t t'. t \<in> set T \<Longrightarrow> P t \<Longrightarrow> is_loop (cb t) \<Longrightarrow> t' \<in> set T \<Longrightarrow> is_loop (cb t')
           \<Longrightarrow> cb_item (cb t') \<in> set (cb_group (cb t)) \<Longrightarrow> P t'"
  shows "blocks_ok (filter P T) N"
proof -
  have "complete (filter P T) t \<or> urgent (filter P T) N t"
    if t: "t \<in> set T" "P t" "is_loop (cb t)" for t
  proof -
    from assms(1) t have "complete T t \<or> urgent T N t" by (simp add: blocks_ok_def)
    then show ?thesis
    proof
      assume c: "complete T t"
      have "complete (filter P T) t"
        unfolding complete_def
      proof
        fix k assume k: "k \<in> set (cb_group (cb t))"
        with c obtain t' where t': "t' \<in> set T" "is_loop (cb t')" "cb_item (cb t') = k"
          "due t' = due t"
          unfolding complete_def by blast
        with assms(2) [OF t(1,2,3) t'(1,2)] k have "P t'" by simp
        with t' show "\<exists>t'\<in>set (filter P T). is_loop (cb t') \<and> cb_item (cb t') = k \<and> due t' = due t"
          by auto
      qed
      then show ?thesis ..
    next
      assume "urgent T N t"
      then have "urgent (filter P T) N t" by (rule urgent_filter) simp
      then show ?thesis ..
    qed
  qed
  with assms(1) show ?thesis
    by (auto simp: blocks_ok_def)
qed

lemma blocks_ok_now:
  assumes "blocks_ok T N" and "N \<le> N'" and "\<forall>t \<in> set T. N' \<le> due t"
  shows "blocks_ok T N'"
proof -
  have "urgent T N' t" if "urgent T N t" for t
    using that assms(2) by (auto simp: urgent_def)
  with assms show ?thesis
    by (auto simp: blocks_ok_def)
qed

text \<open>A timer that is not a loop timer is removed.\<close>

lemma abs_inv_remove_other:
  assumes "abs_inv T L S N I" and "u \<in> set T" and "\<not> is_loop (cb u)"
  shows "abs_inv (filter (\<lambda>x. tid x \<noteq> tid u) T) L S N I"
proof -
  from assms(1) have a: "length L = length S" "ids_ok T I" "handles_ok T L I" "recorded T L"
    "groups_ok T S" "blocks_ok T N" "contiguous T"
    by (simp_all add: abs_inv_def)
  have "blocks_ok (filter (\<lambda>x. tid x \<noteq> tid u) T) N"
  proof (rule blocks_ok_filter [OF a(6)])
    fix t t' assume "t' \<in> set T" "is_loop (cb t')"
    with assms(2,3) tid_inj [OF a(2)] show "tid t' \<noteq> tid u" by blast
  qed
  with a show ?thesis
    unfolding abs_inv_def
    by (simp add: ids_ok_filter handles_ok_filter recorded_filter groups_ok_filter
          contiguous_filter)
qed

lemma members_iff: "j \<in> set (members S x) \<longleftrightarrow> j < length S \<and> S ! j = x"
  by (auto simp: members_def)

text \<open>The loop timers held by the elements of one container are removed.\<close>

lemma abs_inv_remove_group:
  assumes "abs_inv T L S N I"
  shows "abs_inv (filter (\<lambda>t. \<forall>j \<in> set (members S x). L ! j = Some (tid t) \<longrightarrow> tid t = 0) T)
           L S N I"
proof -
  let ?P = "\<lambda>t. \<forall>j \<in> set (members S x). L ! j = Some (tid t) \<longrightarrow> tid t = 0"
  from assms(1) have a: "length L = length S" "ids_ok T I" "handles_ok T L I" "recorded T L"
    "groups_ok T S" "blocks_ok T N" "contiguous T"
    by (simp_all add: abs_inv_def)
  have "blocks_ok (filter ?P T) N"
  proof (rule blocks_ok_filter [OF a(6)])
    fix t t'
    assume t: "t \<in> set T" "?P t" "is_loop (cb t)"
      and t': "t' \<in> set T" "is_loop (cb t')" "cb_item (cb t') \<in> set (cb_group (cb t))"
    from a(5) t(1) have g: "cb_item (cb t) < length S"
      "cb_group (cb t) = members S (S ! cb_item (cb t))"
      by (simp_all add: groups_ok_def)
    from a(4) t(1,3) have r: "L ! cb_item (cb t) = Some (tid t)" by (simp add: recorded_def)
    from a(2) t(1) have "tid t \<noteq> 0" by (auto simp: ids_ok_def)
    with r t(2) have "cb_item (cb t) \<notin> set (members S x)" by auto
    with g(1) have "S ! cb_item (cb t) \<noteq> x" by (simp add: members_iff)
    moreover from t'(3) g(2) have "S ! cb_item (cb t') = S ! cb_item (cb t)"
      by (simp add: members_iff)
    ultimately have n: "cb_item (cb t') \<notin> set (members S x)" by (simp add: members_iff)
    show "?P t'"
    proof (intro ballI impI)
      fix j assume j: "j \<in> set (members S x)" "L ! j = Some (tid t')"
      with a(1) have "j < length L" by (simp add: members_iff)
      with a(3) t'(1) j(2) have "cb_item (cb t') = j" by (simp add: handles_ok_def)
      with n j(1) show "tid t' = 0" by simp
    qed
  qed
  with a show ?thesis
    unfolding abs_inv_def
    by (simp add: ids_ok_filter handles_ok_filter recorded_filter groups_ok_filter
          contiguous_filter)
qed

lemma removed_group_loops:
  assumes "abs_inv T L S N I"
    and "t \<in> set (filter (\<lambda>t. \<forall>j \<in> set (members S x). L ! j = Some (tid t) \<longrightarrow> tid t = 0) T)"
    and "is_loop (cb t)"
  shows "cb_group (cb t) \<noteq> members S x"
proof
  assume e: "cb_group (cb t) = members S x"
  from assms(1) have a: "length L = length S" "ids_ok T I" "recorded T L" "groups_ok T S"
    by (simp_all add: abs_inv_def)
  from assms(2) have t: "t \<in> set T"
    "\<forall>j \<in> set (members S x). L ! j = Some (tid t) \<longrightarrow> tid t = 0"
    by simp_all
  from a(4) t(1) have g: "cb_item (cb t) < length S"
    "cb_group (cb t) = members S (S ! cb_item (cb t))"
    by (simp_all add: groups_ok_def)
  then have "cb_item (cb t) \<in> set (cb_group (cb t))" by (simp add: members_iff)
  with e have m: "cb_item (cb t) \<in> set (members S x)" by simp
  from a(3) t(1) assms(3) have r: "L ! cb_item (cb t) = Some (tid t)"
    by (simp add: recorded_def)
  from a(2) t(1) have z: "tid t \<noteq> 0" by (auto simp: ids_ok_def)
  from t(2) m have "L ! cb_item (cb t) = Some (tid t) \<longrightarrow> tid t = 0" by (rule bspec)
  with r z show False by simp
qed

text \<open>The loop timer that is due next fires.\<close>

lemma group_member:
  assumes "groups_ok T S" and "t \<in> set T"
  shows "cb_item (cb t) \<in> set (cb_group (cb t))"
  using assms by (simp add: groups_ok_def members_iff)

lemma same_group:
  assumes "groups_ok T S" and "t \<in> set T" and "u \<in> set T"
    and "cb_item (cb u) \<in> set (cb_group (cb t))"
  shows "cb_group (cb u) = cb_group (cb t)"
  using assms by (simp add: groups_ok_def members_iff)

lemma abs_inv_fire_loop:
  assumes "abs_inv T L S N I" and "earliest T = Some u" and "is_loop (cb u)"
  shows "abs_inv (filter (\<lambda>x. tid x \<noteq> tid u) T) L S (max N (due u)) I"
proof -
  let ?T' = "filter (\<lambda>x. tid x \<noteq> tid u) T" and ?N' = "max N (due u)"
  from assms(1) have a: "length L = length S" "ids_ok T I" "handles_ok T L I" "recorded T L"
    "groups_ok T S" "blocks_ok T N" "contiguous T"
    by (simp_all add: abs_inv_def)
  from a(2) have "sorted_wrt (<) (map tid T)" by (simp add: ids_ok_def)
  from earliest_min [OF this assms(2)] have u: "u \<in> set T"
    and mn: "\<And>x. x \<in> set T \<Longrightarrow> due u < due x \<or> (due u = due x \<and> tid u \<le> tid x)"
    by blast+
  have d: "?N' \<le> due t" if "t \<in> set T" for t
    using a(6) mn [OF that] that by (auto simp: blocks_ok_def)
  have b: "complete ?T' t \<or> urgent ?T' ?N' t"
    if t: "t \<in> set T" "tid t \<noteq> tid u" "is_loop (cb t)" for t
  proof -
    from a(6) t have "complete T t \<or> urgent T N t" by (simp add: blocks_ok_def)
    then show ?thesis
    proof
      assume "urgent T N t"
      then have "urgent ?T' ?N' t" by (rule urgent_filter) simp
      then show ?thesis ..
    next
      assume c: "complete T t"
      show ?thesis
      proof (cases "cb_group (cb t) = cb_group (cb u)")
        case True
        from group_member [OF a(5) u] True have "cb_item (cb u) \<in> set (cb_group (cb t))"
          by simp
        with c obtain t2 where t2: "t2 \<in> set T" "is_loop (cb t2)"
          "cb_item (cb t2) = cb_item (cb u)" "due t2 = due t"
          unfolding complete_def by blast
        from a(4) t2(1,2) have "L ! cb_item (cb t2) = Some (tid t2)" by (simp add: recorded_def)
        moreover from a(4) u assms(3) have "L ! cb_item (cb u) = Some (tid u)"
          by (simp add: recorded_def)
        ultimately have "tid t2 = tid u" using t2(3) by simp
        with tid_inj [OF a(2) t2(1) u] have "t2 = u" by simp
        with t2(4) have e: "due t = due u" by simp
        have "(is_loop (cb x) \<and> cb_group (cb x) = cb_group (cb t))
              \<or> due t < due x \<or> (due x = due t \<and> tid t < tid x)"
          if x: "x \<in> set T" "tid x \<noteq> tid u" for x
        proof (cases "is_loop (cb x) \<and> cb_group (cb x) = cb_group (cb t)")
          case True
          then show ?thesis by simp
        next
          case False
          from mn [OF x(1)] x(2) have "due u < due x \<or> (due u = due x \<and> tid u < tid x)"
            by auto
          then show ?thesis
          proof
            assume "due u < due x"
            with e show ?thesis by simp
          next
            assume y: "due u = due x \<and> tid u < tid x"
            have "tid t \<noteq> tid x"
              using tid_inj [OF a(2) t(1) x(1)] False t(3) by auto
            moreover have "\<not> tid x < tid t"
            proof
              assume "tid x < tid t"
              with a(7) u t(1) x(1) assms(3) t(3) True y
              have "is_loop (cb x) \<and> cb_group (cb x) = cb_group (cb u)"
                unfolding contiguous_def by (metis (no_types, lifting))
              with True False show False by simp
            qed
            ultimately have "tid t < tid x" by simp
            with y e show ?thesis by simp
          qed
        qed
        with e have "urgent ?T' ?N' t" by (auto simp: urgent_def)
        then show ?thesis ..
      next
        case False
        have "complete ?T' t"
          unfolding complete_def
        proof
          fix k assume k: "k \<in> set (cb_group (cb t))"
          with c obtain t' where t': "t' \<in> set T" "is_loop (cb t')" "cb_item (cb t') = k"
            "due t' = due t"
            unfolding complete_def by blast
          have "tid t' \<noteq> tid u"
          proof
            assume "tid t' = tid u"
            with tid_inj [OF a(2) t'(1) u] have "t' = u" by simp
            with t'(3) k have "cb_item (cb u) \<in> set (cb_group (cb t))" by simp
            from same_group [OF a(5) t(1) u this] False show False by simp
          qed
          with t' show "\<exists>t'\<in>set ?T'. is_loop (cb t') \<and> cb_item (cb t') = k \<and> due t' = due t"
            by auto
        qed
        then show ?thesis ..
      qed
    qed
  qed
  from d b have "blocks_ok ?T' ?N'"
    by (auto simp: blocks_ok_def)
  with a show ?thesis
    unfolding abs_inv_def
    by (simp add: ids_ok_filter handles_ok_filter recorded_filter groups_ok_filter
          contiguous_filter)
qed

text \<open>A timer that is not a loop timer and is due next fires.\<close>

lemma abs_inv_now:
  assumes "abs_inv T L S N I" and "N \<le> N'" and "\<forall>t \<in> set T. N' \<le> due t"
  shows "abs_inv T L S N' I"
  using assms blocks_ok_now [of T N N'] by (simp add: abs_inv_def)

lemma abs_inv_fire_other:
  assumes "abs_inv T L S N I" and "earliest T = Some u" and "\<not> is_loop (cb u)"
  shows "abs_inv (filter (\<lambda>x. tid x \<noteq> tid u) T) L S (max N (due u)) I"
proof -
  from assms(1) have "ids_ok T I" by (simp add: abs_inv_def)
  then have "sorted_wrt (<) (map tid T)" by (simp add: ids_ok_def)
  from earliest_min [OF this assms(2)] have u: "u \<in> set T"
    and mn: "\<And>x. x \<in> set T \<Longrightarrow> due u \<le> due x"
    by (blast, fastforce)
  from assms(1) u assms(3) have "abs_inv (filter (\<lambda>x. tid x \<noteq> tid u) T) L S N I"
    by (rule abs_inv_remove_other)
  then show ?thesis
  proof (rule abs_inv_now)
    show "N \<le> max N (due u)" by simp
    from assms(1) have "\<forall>t \<in> set T. N \<le> due t" by (simp add: abs_inv_def blocks_ok_def)
    with mn show "\<forall>t\<in>set (filter (\<lambda>x. tid x \<noteq> tid u) T). max N (due u) \<le> due t"
      by simp
  qed
qed

text \<open>
  When a typing timer is the one due next and its element holds no handle, no loop timer
  of its group is pending.
\<close>

lemma no_loops_when_unarmed:
  assumes "abs_inv T L S N I" and "earliest T = Some u" and "\<not> is_loop (cb u)"
    and "\<not> truthy (L ! cb_item (cb u))" and "t \<in> set T" and "is_loop (cb t)"
  shows "cb_group (cb t) \<noteq> cb_group (cb u)"
proof
  assume e: "cb_group (cb t) = cb_group (cb u)"
  from assms(1) have a: "ids_ok T I" "recorded T L" "groups_ok T S" "blocks_ok T N"
    by (simp_all add: abs_inv_def)
  from a(1) have "sorted_wrt (<) (map tid T)" by (simp add: ids_ok_def)
  from earliest_min [OF this assms(2)] have u: "u \<in> set T"
    and mn: "due u < due t \<or> (due u = due t \<and> tid u \<le> tid t)"
    using assms(5) by blast+
  from a(4) assms(5,6) have "complete T t \<or> urgent T N t" by (simp add: blocks_ok_def)
  then show False
  proof
    assume c: "complete T t"
    from group_member [OF a(3) u] e have "cb_item (cb u) \<in> set (cb_group (cb t))" by simp
    with c obtain t2 where t2: "t2 \<in> set T" "is_loop (cb t2)" "cb_item (cb t2) = cb_item (cb u)"
      unfolding complete_def by blast
    from a(2) t2(1,2) have "L ! cb_item (cb t2) = Some (tid t2)" by (simp add: recorded_def)
    with t2(3) have "L ! cb_item (cb u) = Some (tid t2)" by simp
    moreover from a(1) t2(1) have "tid t2 \<noteq> 0" by (auto simp: ids_ok_def)
    ultimately show False using assms(4) by (simp add: truthy_def)
  next
    assume "urgent T N t"
    with u assms(3) have "due t < due u \<or> (due u = due t \<and> tid t < tid u)"
      by (auto simp: urgent_def)
    with mn show False by auto
  qed
qed

text \<open>The handle of an element is set to null.\<close>

lemma abs_inv_null:
  assumes "abs_inv T L S N I"
    and "\<forall>t \<in> set T. is_loop (cb t) \<longrightarrow> cb_item (cb t) \<noteq> j"
  shows "abs_inv T (L[j := None]) S N I"
proof -
  from assms(1) have a: "length L = length S" "ids_ok T I" "handles_ok T L I" "recorded T L"
    "groups_ok T S" "blocks_ok T N" "contiguous T"
    by (simp_all add: abs_inv_def)
  have n: "L ! k = Some h" if "k < length L" "L[j := None] ! k = Some h" for k h
    using that by (cases "k = j") simp_all
  have "handles_ok T (L[j := None]) I"
    using a(3) n unfolding handles_ok_def by (metis length_list_update)
  moreover have "recorded T (L[j := None])"
    using a(4) assms(2) by (auto simp: recorded_def)
  ultimately show ?thesis
    using a by (simp add: abs_inv_def)
qed

text \<open>The loop timers of one group are armed together.\<close>

lemma members_distinct: "distinct (members S x)"
  by (simp add: members_def)

lemma abs_inv_arm:
  assumes inv: "abs_inv T L S N I"
    and g: "g = members S x"
    and none: "\<forall>t \<in> set T. is_loop (cb t) \<longrightarrow> cb_group (cb t) \<noteq> g"
    and B: "B = map (\<lambda>m. \<lparr>tid = I + m, due = D, cb = LoopRestart (g ! m) g\<rparr>) [0..<length g]"
    and D: "N \<le> D"
    and len: "length L' = length L"
    and inside: "\<forall>m < length g. L' ! (g ! m) = Some (I + m)"
    and outside: "\<forall>k < length L. k \<notin> set g \<longrightarrow> L' ! k = L ! k"
  shows "abs_inv (T @ B) L' S N (I + length g)"
proof -
  from inv have a: "length L = length S" "ids_ok T I" "handles_ok T L I" "recorded T L"
    "groups_ok T S" "blocks_ok T N" "contiguous T"
    by (simp_all add: abs_inv_def)
  have Bm: "\<exists>m < length g. b = \<lparr>tid = I + m, due = D, cb = LoopRestart (g ! m) g\<rparr>"
    if "b \<in> set B" for b
    using that unfolding B by auto
  have mB: "\<lparr>tid = I + m, due = D, cb = LoopRestart (g ! m) g\<rparr> \<in> set B" if "m < length g" for m
    using that unfolding B by auto
  have Bl: "is_loop (cb b)" "cb_group (cb b) = g" "I \<le> tid b" "tid b < I + length g" "due b = D"
    "cb_item (cb b) \<in> set g"
    if "b \<in> set B" for b
    using Bm [OF that] by (auto simp: is_loop_def)
  have Tl: "tid t < I" "0 < tid t" if "t \<in> set T" for t
    using a(2) that by (auto simp: ids_ok_def)
  have gm: "k < length S \<and> S ! k = x" if "k \<in> set g" for k
    using that unfolding g by (simp add: members_iff)
  have dg: "distinct g" unfolding g by (rule members_distinct)
  \<comment> \<open>handles\<close>
  have i: "ids_ok (T @ B) (I + length g)"
  proof -
    have "sorted_wrt (<) (map tid B)"
      unfolding B by (simp add: sorted_wrt_map comp_def sorted_wrt_iff_nth_less)
    moreover have "\<forall>t \<in> set T. \<forall>b \<in> set B. tid t < tid b"
      using Tl Bl(3) by fastforce
    moreover from a(2) have "sorted_wrt (<) (map tid T)" "0 < I" by (simp_all add: ids_ok_def)
    ultimately show ?thesis
      using Tl Bl(3,4) unfolding ids_ok_def
      by (auto simp: sorted_wrt_append) (metis add.commute trans_less_add2, fastforce)
  qed
  have h1: "h < I + length g" if "k < length L'" "L' ! k = Some h" for k h
  proof (cases "k \<in> set g")
    case True
    then obtain m where "m < length g" "g ! m = k" by (auto simp: in_set_conv_nth)
    with inside that(2) show ?thesis by auto
  next
    case False
    with outside that len have "L ! k = Some h" by simp
    with a(3) that(1) len have "h < I" by (simp add: handles_ok_def)
    then show ?thesis by simp
  qed
  have h2: "is_loop (cb t) \<and> cb_item (cb t) = k"
    if "t \<in> set (T @ B)" "k < length L'" "L' ! k = Some (tid t)" for t k
  proof (cases "t \<in> set T")
    case True
    have "k \<notin> set g"
    proof
      assume "k \<in> set g"
      then obtain m where "m < length g" "g ! m = k" by (auto simp: in_set_conv_nth)
      with inside that(3) have "tid t = I + m" by auto
      with Tl(1) [OF True] show False by simp
    qed
    with outside that(2,3) len have "L ! k = Some (tid t)" by simp
    with a(3) True that(2) len show ?thesis by (simp add: handles_ok_def)
  next
    case False
    with that(1) have b: "t \<in> set B" by simp
    then obtain m where m: "m < length g" "t = \<lparr>tid = I + m, due = D, cb = LoopRestart (g ! m) g\<rparr>"
      using Bm by blast
    have "k \<in> set g"
    proof (rule ccontr)
      assume "k \<notin> set g"
      with outside that(2,3) len have "L ! k = Some (tid t)" by simp
      with a(3) that(2) len have "tid t < I" by (simp add: handles_ok_def)
      with Bl(3) [OF b] show False by simp
    qed
    then obtain m' where m': "m' < length g" "g ! m' = k" by (auto simp: in_set_conv_nth)
    with inside that(3) m have "m' = m" by auto
    with m m' show ?thesis by (simp add: is_loop_def)
  qed
  have h: "handles_ok (T @ B) L' (I + length g)"
    unfolding handles_ok_def using h1 h2 by blast
  \<comment> \<open>recorded\<close>
  have r: "L' ! cb_item (cb t) = Some (tid t)" if t: "t \<in> set (T @ B)" "is_loop (cb t)" for t
  proof (cases "t \<in> set T")
    case True
    from a(5) True have gt: "cb_item (cb t) < length S"
      "cb_group (cb t) = members S (S ! cb_item (cb t))"
      by (simp_all add: groups_ok_def)
    have "cb_item (cb t) \<notin> set g"
    proof
      assume "cb_item (cb t) \<in> set g"
      with gm have "S ! cb_item (cb t) = x" by simp
      with gt(2) g have "cb_group (cb t) = g" by simp
      with none True t(2) show False by simp
    qed
    with outside gt(1) a(1) have "L' ! cb_item (cb t) = L ! cb_item (cb t)" by simp
    with a(4) True t(2) show ?thesis by (simp add: recorded_def)
  next
    case False
    with t(1) have "t \<in> set B" by simp
    then obtain m where "m < length g" "t = \<lparr>tid = I + m, due = D, cb = LoopRestart (g ! m) g\<rparr>"
      using Bm by blast
    with inside show ?thesis by simp
  qed
  \<comment> \<open>groups\<close>
  have gr: "groups_ok (T @ B) S"
  proof -
    have "cb_item (cb b) < length S \<and> cb_group (cb b) = members S (S ! cb_item (cb b))"
      if "b \<in> set B" for b
      using Bl(2,6) [OF that] gm g by auto
    with a(5) show ?thesis by (auto simp: groups_ok_def)
  qed
  \<comment> \<open>blocks\<close>
  have bl: "complete (T @ B) t \<or> urgent (T @ B) N t" if t: "t \<in> set (T @ B)" "is_loop (cb t)" for t
  proof (cases "t \<in> set T")
    case True
    with a(6) t(2) have "complete T t \<or> urgent T N t" by (simp add: blocks_ok_def)
    then show ?thesis
    proof
      assume "complete T t"
      then have "complete (T @ B) t" by (rule complete_mono) auto
      then show ?thesis ..
    next
      assume u: "urgent T N t"
      have "due t < due b \<or> (due b = due t \<and> tid t < tid b)" if "b \<in> set B" for b
      proof -
        from u D Bl(5) [OF that] have "due t \<le> due b" by (simp add: urgent_def)
        moreover from Tl(1) [OF True] Bl(3) [OF that] have "tid t < tid b" by simp
        ultimately show ?thesis by auto
      qed
      with u have "urgent (T @ B) N t" by (auto simp: urgent_def)
      then show ?thesis ..
    qed
  next
    case False
    with t(1) have b: "t \<in> set B" by simp
    have "complete (T @ B) t"
      unfolding complete_def
    proof
      fix k assume "k \<in> set (cb_group (cb t))"
      with Bl(2) [OF b] obtain m where m: "m < length g" "g ! m = k"
        by (auto simp: in_set_conv_nth)
      from mB [OF m(1)] m Bl(5) [OF b]
      show "\<exists>t'\<in>set (T @ B). is_loop (cb t') \<and> cb_item (cb t') = k \<and> due t' = due t"
        by (intro bexI [where x = "\<lparr>tid = I + m, due = D, cb = LoopRestart (g ! m) g\<rparr>"])
           (simp_all add: is_loop_def)
    qed
    then show ?thesis ..
  qed
  have bo: "blocks_ok (T @ B) N"
  proof -
    from a(6) have "\<forall>t \<in> set T. N \<le> due t" by (simp add: blocks_ok_def)
    with D Bl(5) bl show ?thesis by (auto simp: blocks_ok_def)
  qed
  \<comment> \<open>contiguity\<close>
  have co: "contiguous (T @ B)"
    unfolding contiguous_def
  proof (intro ballI impI)
    fix t t' u
    assume m: "t \<in> set (T @ B)" "t' \<in> set (T @ B)" "u \<in> set (T @ B)"
      and c: "is_loop (cb t) \<and> is_loop (cb t') \<and> cb_group (cb t) = cb_group (cb t')
              \<and> tid t < tid u \<and> tid u < tid t'"
    show "is_loop (cb u) \<and> cb_group (cb u) = cb_group (cb t)"
    proof (cases "t' \<in> set T")
      case True
      from c Tl(1) [OF True] have "tid u < I" "tid t < I" by simp_all
      with m Bl(3) have "u \<in> set T" "t \<in> set T" by fastforce+
      with a(7) True c show ?thesis unfolding contiguous_def by blast
    next
      case False
      with m(2) have "t' \<in> set B" by simp
      with c Bl(2) have "cb_group (cb t) = g" by simp
      with none c have "t \<notin> set T" by auto
      with m(1) have "t \<in> set B" by simp
      with c Bl(3) have "I < tid u" by fastforce
      with m(3) Tl(1) have "u \<in> set B" by fastforce
      with Bl(1,2) \<open>cb_group (cb t) = g\<close> show ?thesis by simp
    qed
  qed
  from a(1) len i h r gr bo co show ?thesis
    unfolding abs_inv_def recorded_def by simp
qed

lemma same_loops_refl [simp]: "same_loops s s"
  by (simp add: same_loops_def)

lemma same_loops_trans: "same_loops s s' \<Longrightarrow> same_loops s' s'' \<Longrightarrow> same_loops s s''"
  by (simp add: same_loops_def)

lemma same_loops_length: "same_loops s s' \<Longrightarrow> length (elements s') = length (elements s)"
  unfolding same_loops_def by (metis length_map)

lemma same_loops_preds:
  assumes "same_loops s s'"
  shows "loop_inv s' = loop_inv s" "group_of s' i = group_of s i" "no_loops sl s' = no_loops sl s"
    "armable i sl s' = armable i sl s" "restartable i sl s' = restartable i sl s"
    "startable i sl s' = startable i sl s"
  using assms same_loops_length [OF assms]
  by (simp_all add: same_loops_def loop_inv_def group_of_def no_loops_def armable_def
        restartable_def startable_def)

lemma same_loops_upd:
  assumes "\<And>it. loopTimeout (g it) = loopTimeout it" and "\<And>it. slideElement (g it) = slideElement it"
  shows "same_loops s (upd i g s)"
  by (simp add: same_loops_def upd_def map_update_same assms)

lemma same_loops_console_log [simp]: "same_loops s (console_log m s)"
  by (simp add: same_loops_def console_log_def)

lemma same_loops_write_text: "same_loops s (final (write_text i txt s))"
  by (simp add: write_text_def same_loops_upd split: option.splits sum.splits)

lemma same_loops_append_cursor: "same_loops s (final (append_cursor i s))"
  by (simp add: append_cursor_def same_loops_upd split: option.splits sum.splits)

lemma slideItems_of_members:
  "slideItems_of x s = members (map slideElement (elements s)) x"
  unfolding slideItems_of_def members_def by (rule filter_cong) simp_all

subsection \<open>Scheduling a typing step\<close>

lemma loop_inv_schedule:
  assumes "loop_inv s" and "i < length (elements s)" and "sl = group_of s i"
  shows "loop_inv (schedule (TypeText i sl) d s)"
proof -
  let ?u = "\<lparr>tid = nextId s, due = now s + d, cb = TypeText i sl\<rparr>"
  have "abs_inv (timers s @ [?u]) (map loopTimeout (elements s)) (map slideElement (elements s))
          (now s) (Suc (nextId s))"
    using assms by (intro abs_inv_app) (simp_all add: loop_inv_def is_loop_def group_of_def)
  then show ?thesis
    by (simp add: loop_inv_def schedule_def setTimeout_def)
qed

lemma schedule_facts [simp]:
  "group_of (schedule c d s) i = group_of s i"
  "length (elements (schedule c d s)) = length (elements s)"
  "timers (schedule c d s) = timers s @ [\<lparr>tid = nextId s, due = now s + d, cb = c\<rparr>]"
  by (simp_all add: group_of_def schedule_def setTimeout_def)

lemma no_loops_schedule: "\<not> is_loop c \<Longrightarrow> no_loops sl (schedule c d s) = no_loops sl s"
  by (simp add: no_loops_def)

lemma armable_schedule:
  assumes "armable i sl s"
  shows "armable i sl (schedule (TypeText i sl) d s)"
proof -
  from assms have a: "loop_inv s" "i < length (elements s)" "sl = group_of s i"
    "\<not> truthy (map loopTimeout (elements s) ! i) \<longrightarrow> no_loops sl s"
    by (auto simp: armable_def)
  from a(1,2,3) have "loop_inv (schedule (TypeText i sl) d s)" by (rule loop_inv_schedule)
  with a show ?thesis
    by (simp add: armable_def no_loops_schedule is_loop_def)
qed

lemma restartable_schedule:
  assumes "restartable j sl s"
  shows "restartable j sl (schedule (TypeText j sl) d s)"
proof -
  from assms have a: "loop_inv s" "j < length (elements s)" "sl = group_of s j"
    "\<forall>t \<in> set (timers s). is_loop (cb t) \<longrightarrow> cb_item (cb t) \<noteq> j"
    by (simp_all add: restartable_def)
  from a(1,2,3) have "loop_inv (schedule (TypeText j sl) d s)" by (rule loop_inv_schedule)
  with a show ?thesis
    by (simp add: restartable_def is_loop_def)
qed

lemma startable_schedule:
  assumes "startable j sl s"
  shows "startable j sl (schedule (TypeText j sl) d s)"
proof -
  from assms have a: "loop_inv s" "j < length (elements s)" "sl = group_of s j"
    by (simp_all add: startable_def)
  from a(1,2,3) have "loop_inv (schedule (TypeText j sl) d s)" by (rule loop_inv_schedule)
  with a show ?thesis
    by (simp add: startable_def)
qed

subsection \<open>Arming the loop of a group\<close>

lemma arm_loop_facts:
  "timers (arm_loop sl s j)
     = timers s @ [\<lparr>tid = nextId s, due = now s + loopDelay s, cb = LoopRestart j sl\<rparr>]"
  "nextId (arm_loop sl s j) = Suc (nextId s)"
  "now (arm_loop sl s j) = now s"
  "loopDelay (arm_loop sl s j) = loopDelay s"
  "length (elements (arm_loop sl s j)) = length (elements s)"
  "map loopTimeout (elements (arm_loop sl s j))
     = (map loopTimeout (elements s))[j := Some (nextId s)]"
  by (simp_all add: arm_loop_def setTimeout_def upd_def Let_def map_update)

lemma foldl_arm_scalars:
  "nextId (foldl (arm_loop sl) s js) = nextId s + length js"
  "now (foldl (arm_loop sl) s js) = now s"
  "loopDelay (foldl (arm_loop sl) s js) = loopDelay s"
  "length (elements (foldl (arm_loop sl) s js)) = length (elements s)"
  by (induction js arbitrary: s) (simp_all add: arm_loop_facts)

lemma foldl_arm_timers:
  "timers (foldl (arm_loop sl) s js)
     = timers s @ map (\<lambda>m. \<lparr>tid = nextId s + m, due = now s + loopDelay s,
                              cb = LoopRestart (js ! m) sl\<rparr>) [0..<length js]"
proof (induction js arbitrary: s)
  case Nil
  then show ?case by simp
next
  case (Cons j js)
  have "[0..<length (j # js)] = 0 # map Suc [0..<length js]"
    by (simp add: upt_conv_Cons map_Suc_upt del: upt_Suc)
  then show ?case
    by (simp add: Cons.IH arm_loop_facts comp_def del: upt_Suc)
qed

lemma foldl_arm_outside:
  assumes "k \<notin> set js"
  shows "map loopTimeout (elements (foldl (arm_loop sl) s js)) ! k
       = map loopTimeout (elements s) ! k"
  using assms by (induction js arbitrary: s) (simp_all add: arm_loop_facts)

lemma foldl_arm_inside:
  assumes "distinct js" and "\<forall>j \<in> set js. j < length (elements s)" and "m < length js"
  shows "map loopTimeout (elements (foldl (arm_loop sl) s js)) ! (js ! m) = Some (nextId s + m)"
  using assms
proof (induction js arbitrary: s m)
  case Nil
  then show ?case by simp
next
  case (Cons j js)
  show ?case
  proof (cases m)
    case 0
    from Cons.prems have "j \<notin> set js" and "j < length (elements s)" by simp_all
    then show ?thesis
      by (simp add: 0 foldl_arm_outside arm_loop_facts)
  next
    case (Suc m')
    from Cons.prems Suc have "distinct js" "\<forall>k \<in> set js. k < length (elements (arm_loop sl s j))"
      "m' < length js"
      by (simp_all add: arm_loop_facts)
    then have "map loopTimeout (elements (foldl (arm_loop sl) (arm_loop sl s j) js)) ! (js ! m')
        = Some (nextId (arm_loop sl s j) + m')"
      by (rule Cons.IH)
    then show ?thesis by (simp add: Suc arm_loop_facts)
  qed
qed

lemma loop_inv_arm:
  assumes "armable i sl s" and "\<not> truthy (loopTimeout (elements s ! i))"
  shows "loop_inv (foldl (arm_loop sl) s sl)"
proof -
  let ?S = "map slideElement (elements s)"
  let ?L = "map loopTimeout (elements s)"
  let ?s' = "foldl (arm_loop sl) s sl"
  let ?B = "map (\<lambda>m. \<lparr>tid = nextId s + m, due = now s + loopDelay s,
                         cb = LoopRestart (sl ! m) sl\<rparr>) [0..<length sl]"
  from assms have inv: "abs_inv (timers s) ?L ?S (now s) (nextId s)"
    and i: "i < length (elements s)" and sl: "sl = members ?S (?S ! i)"
    and none: "\<forall>t \<in> set (timers s). is_loop (cb t) \<longrightarrow> cb_group (cb t) \<noteq> sl"
    by (auto simp: armable_def loop_inv_def group_of_def no_loops_def)
  have d: "distinct sl" unfolding sl by (rule members_distinct)
  have b: "\<forall>j \<in> set sl. j < length (elements s)"
    unfolding sl by (simp add: members_iff)
  have S: "map slideElement (elements ?s') = ?S"
    by (rule foldl_arm_keeps) simp
  have "abs_inv (timers s @ ?B) (map loopTimeout (elements ?s')) ?S (now s)
          (nextId s + length sl)"
  proof (rule abs_inv_arm [OF inv sl none])
    show "?B = map (\<lambda>m. \<lparr>tid = nextId s + m, due = now s + loopDelay s,
                           cb = LoopRestart (sl ! m) sl\<rparr>) [0..<length sl]" ..
    show "now s \<le> now s + loopDelay s" by simp
    show "length (map loopTimeout (elements ?s')) = length ?L"
      by (simp add: foldl_arm_scalars)
    show "\<forall>m<length sl. map loopTimeout (elements ?s') ! (sl ! m) = Some (nextId s + m)"
      using d b by (simp add: foldl_arm_inside)
    show "\<forall>k<length ?L. k \<notin> set sl \<longrightarrow> map loopTimeout (elements ?s') ! k = ?L ! k"
      by (simp add: foldl_arm_outside)
  qed
  then show ?thesis
    by (simp add: loop_inv_def S foldl_arm_timers foldl_arm_scalars)
qed

subsection \<open>The callbacks keep the loop invariant\<close>

lemmas armable_and_then = and_then_final [where P = "armable i sl" for i sl]

lemma armable_upd:
  assumes "\<And>it. loopTimeout (g it) = loopTimeout it" and "\<And>it. slideElement (g it) = slideElement it"
  shows "armable i sl (upd k g s) = armable i sl s"
  by (rule same_loops_preds) (rule same_loops_upd [OF assms])

lemma armable_write_text: "armable i sl (final (write_text k txt s)) = armable i sl s"
  by (rule same_loops_preds) (rule same_loops_write_text)

lemma armable_append_cursor: "armable i sl (final (append_cursor k s)) = armable i sl s"
  by (rule same_loops_preds) (rule same_loops_append_cursor)

lemma armable_loop_inv: "armable i sl s \<Longrightarrow> loop_inv s"
  by (simp add: armable_def)

lemma loop_inv_typeText_body:
  assumes "armable i sl s"
  shows "loop_inv (final (typeText_body i sl s))"
proof -
  let ?it = "elements s ! i"
  consider (skip) "\<not> isVisible ?it \<or> element ?it = None"
    | (type) "isVisible ?it" "element ?it \<noteq> None" "length (currentText ?it) < length (fullText ?it)"
    | (complete) "isVisible ?it" "element ?it \<noteq> None" "\<not> length (currentText ?it) < length (fullText ?it)"
    by blast
  then show ?thesis
  proof cases
    case skip
    then have "typeText_body i sl s = Done s"
      by (auto simp: typeText_body_def)
    with assms show ?thesis by (simp add: armable_loop_inv)
  next
    case type
    let ?s1 = "upd i (\<lambda>it. it\<lparr>currentText :=
                 currentText it @ [fullText it ! length (currentText it)]\<rparr>) s"
    from type have eq: "typeText_body i sl s
        = and_then (write_text i (currentText (elements ?s1 ! i)) ?s1) (\<lambda>s2.
            and_then (append_cursor i s2) (\<lambda>s3.
            Done (schedule (TypeText i sl) (typingSpeed s3) s3)))"
      by (auto simp: typeText_body_def Let_def)
    have "armable i sl ?s1" using assms by (simp add: armable_upd)
    then have "armable i sl (final (typeText_body i sl s))"
      unfolding eq
      by (intro armable_and_then) (simp_all add: armable_write_text armable_append_cursor
                                     armable_schedule)
    then show ?thesis by (rule armable_loop_inv)
  next
    case complete
    then have eq: "typeText_body i sl s
        = and_then (write_text i (fullText ?it) s) (\<lambda>s1.
            Done (if allDone sl s1 \<and> \<not> truthy (loopTimeout (elements s1 ! i))
                  then foldl (arm_loop sl) s1 sl else s1))"
      by (auto simp: typeText_body_def Let_def)
    show ?thesis
    proof (cases "write_text i (fullText ?it) s")
      case (Done s1)
      have "armable i sl (final (write_text i (fullText ?it) s))"
        using assms by (simp add: armable_write_text)
      then have a: "armable i sl s1" by (simp add: Done)
      then show ?thesis
        by (simp add: eq Done and_then_def loop_inv_arm armable_loop_inv)
    next
      case (Thrown e s1)
      have "armable i sl (final (write_text i (fullText ?it) s))"
        using assms by (simp add: armable_write_text)
      then have a: "armable i sl s1" by (simp add: Thrown)
      then show ?thesis
        by (simp add: eq Thrown and_then_def armable_loop_inv)
    qed
  qed
qed

lemma loop_inv_console_log [simp]: "loop_inv (console_log m s) = loop_inv s"
  by (rule same_loops_preds) simp

lemma loop_inv_typeText:
  assumes "armable i sl s"
  shows "loop_inv (typeText i sl s)"
  using loop_inv_typeText_body [OF assms]
  by (cases "typeText_body i sl s") (simp_all add: typeText_def)

lemma loop_inv_loopRestart:
  assumes "restartable j sl s"
  shows "loop_inv (loopRestart j sl s)"
proof -
  let ?s0 = "upd j (\<lambda>it. it\<lparr>currentText := []\<rparr>) s"
  have "same_loops s ?s0" by (rule same_loops_upd) simp_all
  moreover have "same_loops ?s0 (final (write_text j [] ?s0))" by (rule same_loops_write_text)
  ultimately have sl: "same_loops s (final (write_text j [] ?s0))" by (rule same_loops_trans)
  then have r: "restartable j sl (final (write_text j [] ?s0))"
    using assms by (simp add: same_loops_preds)
  show ?thesis
  proof (cases "write_text j [] ?s0")
    case (Done s1)
    with r have r1: "restartable j sl s1" by simp
    let ?s2 = "upd j (\<lambda>it. it\<lparr>loopTimeout := None\<rparr>) s1"
    from r1 have "abs_inv (timers s1) ((map loopTimeout (elements s1))[j := None])
        (map slideElement (elements s1)) (now s1) (nextId s1)"
      by (intro abs_inv_null) (simp_all add: restartable_def loop_inv_def)
    then have "loop_inv ?s2"
      by (simp add: loop_inv_def upd_frame [where f = loopTimeout]
            upd_frame_same [where f = slideElement])
    moreover from r1 have "j < length (elements ?s2)" "sl = group_of ?s2 j"
      by (simp_all add: restartable_def group_of_def upd_frame_same)
    ultimately have "loop_inv (schedule (TypeText j sl)
        (staggerIndex (elements ?s2 ! j) * staggerDelay ?s2) ?s2)"
      by (rule loop_inv_schedule)
    then show ?thesis
      by (simp add: loopRestart_def loopRestart_body_def Done and_then_def Let_def)
  next
    case (Thrown e s1)
    with r have "loop_inv s1" by (simp add: restartable_def)
    then show ?thesis
      by (simp add: loopRestart_def loopRestart_body_def Thrown and_then_def)
  qed
qed

lemma startable_start_item:
  assumes "startable j sl s" and "startable k sl s"
  shows "startable k sl (start_item sl s j)"
proof -
  let ?s1 = "if \<not> isVisible (elements s ! j) then upd j (\<lambda>it. it\<lparr>isVisible := True\<rparr>) s else s"
  let ?s2 = "upd j (\<lambda>it. it\<lparr>currentText := []\<rparr>) ?s1"
  have "same_loops s ?s1" by (simp add: same_loops_upd)
  moreover have "same_loops ?s1 ?s2" by (rule same_loops_upd) simp_all
  ultimately have "same_loops s ?s2" by (rule same_loops_trans)
  moreover have "same_loops ?s2 (final (write_text j [] ?s2))" by (rule same_loops_write_text)
  ultimately have sl: "same_loops s (final (write_text j [] ?s2))" by (rule same_loops_trans)
  have r: "startable j sl (final (write_text j [] ?s2))" "startable k sl (final (write_text j [] ?s2))"
    using assms by (simp_all add: same_loops_preds [OF sl])
  have eq: "start_item_body sl s j = and_then (write_text j [] ?s2) (\<lambda>s3.
           Done (schedule (TypeText j sl) (staggerIndex (elements s3 ! j) * staggerDelay s3) s3))"
    by (simp add: start_item_body_def Let_def)
  show ?thesis
  proof (cases "write_text j [] ?s2")
    case (Done s3)
    with r have r3: "startable j sl s3" "startable k sl s3" by simp_all
    then have "loop_inv (schedule (TypeText j sl) (staggerIndex (elements s3 ! j) * staggerDelay s3) s3)"
      by (intro loop_inv_schedule) (simp_all add: startable_def)
    with r3(2) have "startable k sl (schedule (TypeText j sl)
        (staggerIndex (elements s3 ! j) * staggerDelay s3) s3)"
      by (simp add: startable_def)
    then show ?thesis
      by (simp add: start_item_def eq Done and_then_def)
  next
    case (Thrown e s3)
    from Thrown r have "startable k sl s3" by simp
    then have "startable k sl (console_log ''Error starting typewriter item:'' s3)"
      by (simp add: same_loops_preds(6) [OF same_loops_console_log])
    then show ?thesis
      by (simp add: start_item_def eq Thrown and_then_def)
  qed
qed

lemma startable_foldl_start:
  assumes "\<forall>j \<in> set js. startable j sl s" and "startable k sl s"
  shows "startable k sl (foldl (start_item sl) s js)"
  using assms
proof (induction js arbitrary: s)
  case Nil
  then show ?case by simp
next
  case (Cons j js)
  from Cons.prems have j: "startable j sl s" by simp
  have "\<forall>j' \<in> set js. startable j' sl (start_item sl s j)"
    using Cons.prems(1) j by (simp add: startable_start_item)
  moreover have "startable k sl (start_item sl s j)"
    using j Cons.prems(2) by (rule startable_start_item)
  ultimately have "startable k sl (foldl (start_item sl) (start_item sl s j) js)"
    by (rule Cons.IH)
  then show ?case by simp
qed

subsection \<open>The observer callback keeps the loop invariant\<close>

lemma clear_loop_timers_filter:
  "timers (clear_loop s j)
     = filter (\<lambda>t. loopTimeout (elements s ! j) = Some (tid t) \<longrightarrow> tid t = 0) (timers s)"
proof (cases "loopTimeout (elements s ! j)")
  case None
  then show ?thesis by (simp add: clear_loop_def)
next
  case (Some h)
  show ?thesis
  proof (cases "h = 0")
    case True
    have "filter (\<lambda>t. 0 = tid t \<longrightarrow> tid t = 0) (timers s) = timers s"
      by (rule filter_True) simp
    with Some True show ?thesis by (simp add: clear_loop_def)
  next
    case False
    have "filter (\<lambda>t. tid t \<noteq> h) (timers s) = filter (\<lambda>t. h = tid t \<longrightarrow> tid t = 0) (timers s)"
      using False by (intro filter_cong) auto
    with Some False show ?thesis
      by (simp add: clear_loop_def clearTimeout_def Let_def)
  qed
qed

lemma clear_loop_scalars [simp]:
  "nextId (clear_loop s j) = nextId s"
  by (simp add: clear_loop_def clearTimeout_def Let_def split: option.splits)

lemma foldl_clear_scalars [simp]:
  "nextId (foldl clear_loop s js) = nextId s"
  by (induction js arbitrary: s) simp_all

lemma foldl_clear_timers_filter:
  "timers (foldl clear_loop s js)
     = filter (\<lambda>t. \<forall>j \<in> set js. loopTimeout (elements s ! j) = Some (tid t) \<longrightarrow> tid t = 0)
         (timers s)"
proof (induction js arbitrary: s)
  case Nil
  show ?case by simp
next
  case (Cons j js)
  show ?case
    by (simp add: Cons.IH clear_loop_timers_filter)
qed

lemma loop_inv_foldl_clear:
  assumes "loop_inv s"
  shows "loop_inv (foldl clear_loop s (slideItems_of x s))"
proof -
  let ?S = "map slideElement (elements s)" and ?L = "map loopTimeout (elements s)"
  have "filter (\<lambda>t. \<forall>j \<in> set (slideItems_of x s).
                  loopTimeout (elements s ! j) = Some (tid t) \<longrightarrow> tid t = 0) (timers s)
      = filter (\<lambda>t. \<forall>j \<in> set (members ?S x). ?L ! j = Some (tid t) \<longrightarrow> tid t = 0) (timers s)"
    by (rule filter_cong) (auto simp: slideItems_of_members members_iff)
  moreover from assms
  have "abs_inv (filter (\<lambda>t. \<forall>j \<in> set (members ?S x). ?L ! j = Some (tid t) \<longrightarrow> tid t = 0)
                   (timers s)) ?L ?S (now s) (nextId s)"
    unfolding loop_inv_def by (rule abs_inv_remove_group)
  ultimately show ?thesis
    by (simp add: loop_inv_def foldl_clear_timers_filter)
qed

lemma loop_inv_foldl_start:
  assumes "loop_inv s" and "\<forall>j \<in> set js. startable j sl s"
  shows "loop_inv (foldl (start_item sl) s js)"
proof (cases js)
  case Nil
  with assms show ?thesis by simp
next
  case (Cons k ks)
  with assms(2) have "startable k sl s" by simp
  with assms(2) have "startable k sl (foldl (start_item sl) s js)"
    by (rule startable_foldl_start)
  then show ?thesis by (simp add: startable_def)
qed

lemma loop_inv_on_entry:
  assumes "loop_inv s"
  shows "loop_inv (on_entry s e)"
proof (cases "snd e")
  case False
  with assms show ?thesis by (simp add: on_entry_def)
next
  case True
  let ?sl = "slideItems_of (fst e) s"
  let ?c = "foldl clear_loop s ?sl"
  have c: "loop_inv ?c" using assms by (rule loop_inv_foldl_clear)
  have "startable j ?sl ?c" if "j \<in> set ?sl" for j
  proof -
    from that have j: "j < length (elements s)" "slideElement (elements s ! j) = fst e"
      by (simp_all add: slideItems_of_iff)
    then have "group_of ?c j = ?sl"
      by (simp add: group_of_def slideItems_of_members)
    with c j show ?thesis by (simp add: startable_def)
  qed
  then have "loop_inv (foldl (start_item ?sl) ?c ?sl)"
    using c by (intro loop_inv_foldl_start) simp_all
  with True show ?thesis by (simp add: on_entry_def Let_def)
qed

lemma loop_inv_observer_callback:
  "loop_inv s \<Longrightarrow> loop_inv (observer_callback es s)"
  unfolding observer_callback_def
  by (induction es arbitrary: s) (simp_all add: loop_inv_on_entry)

subsection \<open>A timer that fires keeps the loop invariant\<close>

lemma loop_inv_fire:
  assumes inv: "loop_inv s" and e: "earliest (timers s) = Some t"
  shows "loop_inv (fire t s)"
proof -
  let ?T = "timers s" and ?S = "map slideElement (elements s)"
  let ?L = "map loopTimeout (elements s)"
  let ?s1 = "s\<lparr>timers := filter (\<lambda>u. tid u \<noteq> tid t) (timers s), now := max (now s) (due t)\<rparr>"
  from inv have a: "abs_inv ?T ?L ?S (now s) (nextId s)" by (simp add: loop_inv_def)
  then have ids: "ids_ok ?T (nextId s)" and g: "groups_ok ?T ?S" and r: "recorded ?T ?L"
    by (simp_all add: abs_inv_def)
  from ids e have t: "t \<in> set ?T"
    using earliest_min [of ?T t] by (simp add: ids_ok_def)
  from g t have i: "cb_item (cb t) < length (elements s)"
    and sl: "cb_group (cb t) = group_of s (cb_item (cb t))"
    by (simp_all add: groups_ok_def group_of_def)
  show ?thesis
  proof (cases "cb t")
    case (TypeText i sl)
    then have nl: "\<not> is_loop (cb t)" by (simp add: is_loop_def)
    have "abs_inv (filter (\<lambda>x. tid x \<noteq> tid t) ?T) ?L ?S (max (now s) (due t)) (nextId s)"
      using a e nl by (rule abs_inv_fire_other)
    then have l1: "loop_inv ?s1" by (simp add: loop_inv_def)
    have "no_loops sl ?s1" if "\<not> truthy (loopTimeout (elements s ! i))"
      unfolding no_loops_def
    proof (intro ballI impI)
      fix u assume u: "u \<in> set (timers ?s1)" "is_loop (cb u)"
      then have "u \<in> set ?T" by simp
      moreover from that i TypeText have "\<not> truthy (?L ! cb_item (cb t))" by simp
      ultimately have "cb_group (cb u) \<noteq> cb_group (cb t)"
        using no_loops_when_unarmed [OF a e nl] u(2) by blast
      with TypeText show "cb_group (cb u) \<noteq> sl" by simp
    qed
    with l1 i sl TypeText have "armable i sl ?s1"
      by (simp add: armable_def group_of_def)
    then have "loop_inv (typeText i sl ?s1)" by (rule loop_inv_typeText)
    with TypeText show ?thesis by (simp add: fire_def run_callback_def)
  next
    case (LoopRestart j sl)
    then have il: "is_loop (cb t)" by (simp add: is_loop_def)
    have "abs_inv (filter (\<lambda>x. tid x \<noteq> tid t) ?T) ?L ?S (max (now s) (due t)) (nextId s)"
      using a e il by (rule abs_inv_fire_loop)
    then have l1: "loop_inv ?s1" by (simp add: loop_inv_def)
    have "cb_item (cb u) \<noteq> j" if u: "u \<in> set (timers ?s1)" "is_loop (cb u)" for u
    proof
      assume eq: "cb_item (cb u) = j"
      from u have uT: "u \<in> set ?T" and ne: "tid u \<noteq> tid t" by simp_all
      from r uT u(2) have "?L ! cb_item (cb u) = Some (tid u)" by (simp add: recorded_def)
      moreover from r t il have "?L ! cb_item (cb t) = Some (tid t)" by (simp add: recorded_def)
      ultimately show False using eq ne LoopRestart by simp
    qed
    with l1 i sl LoopRestart have "restartable j sl ?s1"
      by (simp add: restartable_def group_of_def)
    then have "loop_inv (loopRestart j sl ?s1)" by (rule loop_inv_loopRestart)
    with LoopRestart show ?thesis by (simp add: fire_def run_callback_def)
  qed
qed

lemma loop_inv_fire_next: "loop_inv s \<Longrightarrow> loop_inv (fire_next s)"
  by (simp add: fire_next_def loop_inv_fire split: option.splits)

subsection \<open>Every reachable state has the loop invariant\<close>

lemma abs_inv_none:
  assumes "abs_inv T L S N I"
  shows "abs_inv [] L S N I"
  using assms
  by (simp add: abs_inv_def ids_ok_def handles_ok_def recorded_def groups_ok_def blocks_ok_def
        contiguous_def)

lemma track_group_loopTimeout: "it \<in> set (track_group g) \<Longrightarrow> loopTimeout it = None"
  by (auto simp: track_group_def track_def split: if_splits)

lemma loop_inv_init: "loop_inv (init doc (constructor opts))"
proof -
  have a: "abs_inv [] (map loopTimeout els) (map slideElement els) 0 (Suc 0)"
    if "\<forall>it \<in> set els. loopTimeout it = None" for els
    using that
    by (simp add: abs_inv_def ids_ok_def handles_ok_def recorded_def groups_ok_def blocks_ok_def
          contiguous_def)
  show ?thesis
  proof (cases "doc = []")
    case True
    with a [of "[]"] show ?thesis
      by (simp add: loop_inv_def init_def constructor_def console_log_def)
  next
    case False
    have "\<forall>it \<in> set (concat (map track_group (slideGroups doc))). loopTimeout it = None"
      by (auto dest: track_group_loopTimeout)
    from a [OF this] False show ?thesis
      by (simp add: loop_inv_def init_def constructor_def observe_all_def)
  qed
qed

lemma reachable_loop_inv: "reachable s \<Longrightarrow> loop_inv s"
proof (induction rule: reachable.induct)
  case (start doc opts)
  show ?case by (rule loop_inv_init)
next
  case (notify s entries)
  then show ?case by (simp add: loop_inv_observer_callback)
next
  case (timeout s)
  then show ?case by (simp add: loop_inv_fire_next)
next
  case (wait s t)
  from wait.IH have a: "abs_inv (timers s) (map loopTimeout (elements s))
      (map slideElement (elements s)) (now s) (nextId s)"
    by (simp add: loop_inv_def)
  then have "\<forall>u \<in> set (timers s). now s \<le> due u"
    by (simp add: abs_inv_def blocks_ok_def)
  with wait.hyps(2) have b: "\<forall>u \<in> set (timers s). max (now s) t \<le> due u"
    by simp
  have c: "now s \<le> max (now s) t" by simp
  from a c b have "abs_inv (timers s) (map loopTimeout (elements s))
      (map slideElement (elements s)) (max (now s) t) (nextId s)"
    by (rule abs_inv_now)
  then show ?case by (simp add: loop_inv_def)
next
  case (unload s)
  from unload.hyps have "pending_tracked s" by (rule reachable_pending_tracked)
  then have "timers (destroy s) = []"
    by (auto simp: destroy_eq pending_tracked_def list_all_iff filter_empty_conv)
  moreover have "nextId (destroy s) = nextId s" "now (destroy s) = now s"
    by (simp_all add: destroy_eq)
  moreover from unload.IH have "abs_inv [] (map loopTimeout (elements s))
      (map slideElement (elements s)) (now s) (nextId s)"
    unfolding loop_inv_def by (rule abs_inv_none)
  ultimately show ?case by (simp add: loop_inv_def)
qed

lemma reachable_loops_recorded:
  assumes "reachable s"
  shows "loops_recorded s"
proof -
  from assms have "loop_inv s" by (rule reachable_loop_inv)
  then have ids: "ids_ok (timers s) (nextId s)"
    and g: "groups_ok (timers s) (map slideElement (elements s))"
    and r: "recorded (timers s) (map loopTimeout (elements s))"
    by (simp_all add: loop_inv_def abs_inv_def)
  have "tid t \<noteq> 0 \<and> loopTimeout (elements s ! k) = Some (tid t)"
    if t: "t \<in> set (timers s)" and c: "cb t = LoopRestart k sl" for t k sl
  proof -
    from ids t have "0 < tid t" by (simp add: ids_ok_def)
    moreover from g t c have "k < length (elements s)" by (auto simp: groups_ok_def)
    moreover from r t c have "map loopTimeout (elements s) ! k = Some (tid t)"
      by (auto simp: recorded_def is_loop_def)
    ultimately show ?thesis by simp
  qed
  then show ?thesis
    by (auto simp: loops_recorded_def list_all_iff split: callback.splits)
qed

subsection \<open>A trigger restarts its group\<close>

lemma foldl_start_healthy:
  assumes "j \<in> set js" and "distinct js" and "j < length (elements s)"
    and "element (elements s ! j) = Some n" and "fault n \<noteq> SetterThrows"
  shows "elements (foldl (start_item sl) s js) ! j
           = (reset (elements s ! j))\<lparr>element := Some (n\<lparr>children := []\<rparr>)\<rparr>
       \<and> \<lparr>tid = nextId (foldl (start_item sl) s (takeWhile (\<lambda>k. k \<noteq> j) js)),
           due = now s + staggerIndex (elements s ! j) * staggerDelay s,
           cb = TypeText j sl\<rparr> \<in> set (timers (foldl (start_item sl) s js))"
  using assms
proof (induction js arbitrary: s)
  case Nil
  then show ?case by simp
next
  case (Cons a js)
  show ?case
  proof (cases "a = j")
    case True
    with Cons.prems have "j \<notin> set js" by simp
    then have "elements (foldl (start_item sl) (start_item sl s j) js) ! j
        = elements (start_item sl s j) ! j"
      by (rule foldl_start_other)
    moreover have "set (timers (start_item sl s j))
        \<subseteq> set (timers (foldl (start_item sl) (start_item sl s j) js))"
      by (rule foldl_start_timers_grow)
    ultimately show ?thesis
      using True start_item_healthy [OF Cons.prems(3,4,5), of sl] by auto
  next
    case False
    let ?s1 = "start_item sl s a"
    from False have e: "elements ?s1 ! j = elements s ! j"
      by (simp add: start_item_other)
    from False Cons.prems have "j \<in> set js" "distinct js" "j < length (elements ?s1)"
      "element (elements ?s1 ! j) = Some n"
      by (simp_all add: e)
    from Cons.IH [OF this Cons.prems(5)] False show ?thesis
      by (simp add: e)
  qed
qed


lemma reachable_fire_next_funpow: "reachable s \<Longrightarrow> reachable ((fire_next ^^ k) s)"
  by (induction k) (simp_all add: reachable.timeout)

lemma hi_yo_at6_facts:
  "1 < length (elements ((fire_next ^^ 6) hi_yo_visible))"
  "slideElement (elements ((fire_next ^^ 6) hi_yo_visible) ! 1) = 7"
  "element (elements ((fire_next ^^ 6) hi_yo_visible) ! 1)
     = Some \<lparr>node_id = 1, children = [TextNode ''Yo''], fault = NoFault\<rparr>"
  "map cb (timers ((fire_next ^^ 6) hi_yo_visible)) = [LoopRestart 0 [0, 1], LoopRestart 1 [0, 1]]"
  "now ((fire_next ^^ 6) hi_yo_visible) = 25"
  "staggerIndex (elements ((fire_next ^^ 6) hi_yo_visible) ! 1) = 1"
  "staggerDelay ((fire_next ^^ 6) hi_yo_visible) = 5"
  unfolding hi_yo_at6
  by (simp_all add: fixture_defs)

lemma hi_yo_reentered_timers:
  "map cb (timers (on_entry ((fire_next ^^ 6) hi_yo_visible) (7, True)))
     = [TypeText 0 [0, 1], TypeText 1 [0, 1]]"
proof -
  have "on_entry ((fire_next ^^ 6) hi_yo_visible) (7, True) = hi_yo_reentered"
    by (simp add: hi_yo_reentered_def observer_callback_def del: funpow.simps)
  then show ?thesis
    by (simp add: hi_yo_again0 demo_state_def tm_def del: funpow.simps)
qed


subsection \<open>What is written to a sink\<close>

lemma foldl_arm_nth:
  assumes "\<And>it h. f (it\<lparr>loopTimeout := h\<rparr>) = f it" and "i < length (elements s)"
  shows "f (elements (foldl (arm_loop sl) s js) ! i) = f (elements s ! i)"
proof -
  have m: "map f (elements (foldl (arm_loop sl) s js)) = map f (elements s)"
    using assms(1) by (rule foldl_arm_keeps)
  then have "length (elements (foldl (arm_loop sl) s js)) = length (elements s)"
    by (rule map_eq_imp_length_eq)
  with assms(2) have "f (elements (foldl (arm_loop sl) s js) ! i)
      = map f (elements (foldl (arm_loop sl) s js)) ! i"
    by simp
  also have "\<dots> = f (elements s ! i)"
    using assms(2) by (simp add: m)
  finally show ?thesis .
qed

lemma typeText_writes_prefix:
  assumes "i < length (elements s)" and "isVisible (elements s ! i)"
    and "element (elements s ! i) = Some n" and "fault n = NoFault"
    and "length (currentText (elements s ! i)) < length (fullText (elements s ! i))"
  shows "element (elements (typeText i sl s) ! i)
       = Some (n\<lparr>children :=
           [TextNode (currentText (elements s ! i)
                        @ [fullText (elements s ! i) ! length (currentText (elements s ! i))]),
            CursorSpan (cursorChar s)]\<rparr>)"
  using assms
  by (simp add: typeText_def typeText_body_def Let_def write_text_def append_cursor_def
        set_textContent_def appendCursor_def and_then_def upd_def)

lemma typeText_writes_full:
  assumes "i < length (elements s)" and "isVisible (elements s ! i)"
    and "element (elements s ! i) = Some n" and "fault n = NoFault"
    and "\<not> length (currentText (elements s ! i)) < length (fullText (elements s ! i))"
    and "fullText (elements s ! i) \<noteq> []"
  shows "element (elements (typeText i sl s) ! i)
       = Some (n\<lparr>children := [TextNode (fullText (elements s ! i))]\<rparr>)"
proof -
  let ?s1 = "upd i (\<lambda>it. it\<lparr>element :=
      Some (n\<lparr>children := [TextNode (fullText (elements s ! i))]\<rparr>)\<rparr>) s"
  have w: "write_text i (fullText (elements s ! i)) s = Done ?s1"
    using assms by (simp add: write_text_def set_textContent_def)
  have "element (elements (foldl (arm_loop sl) ?s1 sl) ! i) = element (elements ?s1 ! i)"
    using assms(1) by (intro foldl_arm_nth) simp_all
  then show ?thesis
    using assms w by (simp add: typeText_def typeText_body_def Let_def and_then_def upd_def)
qed

lemma loopRestart_clears:
  assumes "i < length (elements s)" and "element (elements s ! i) = Some n"
    and "fault n = NoFault"
  shows "element (elements (loopRestart i sl s) ! i) = Some (n\<lparr>children := []\<rparr>)"
  using assms
  by (simp add: loopRestart_def loopRestart_body_def Let_def write_text_def
        set_textContent_def and_then_def upd_def)

text \<open>
  C7, as claimed, fails: the visibility trigger assigns the empty string to the sink of
  every element of the group. The sink of element 0 held "Hi" before and holds nothing
  afterwards, which is neither the prefix with the cursor nor the full text.
\<close>

theorem sink_cleared_counterexample:
  "element (elements hi_yo ! 0)
     = Some \<lparr>node_id = 0, children = [TextNode ''Hi''], fault = NoFault\<rparr>
   \<and> element (elements hi_yo_visible ! 0) = Some \<lparr>node_id = 0, children = [], fault = NoFault\<rparr>
   \<and> \<not> spec_sink_content (cursorChar hi_yo_visible) (elements hi_yo_visible ! 0) []"
  by (simp add: hi_yo_init hi_yo_at0 demo_state_def demo_item_def spec_sink_content_def)

text \<open>
  C7, amended. For an element with a sink that accepts writes, the source writes in four
  places. \<^verbatim>\<open>typeText\<close>, which runs on a visible element only, leaves in the sink one
  text node holding the revealed prefix, one character longer than before, followed by the
  cursor span, or, when the text is fully revealed, one text node holding the full text and
  no cursor. The loop closure and the observer callback leave the sink empty, whether the
  element was visible before or not: the first visibility trigger of an element is such a
  write. Every text goes in through \<^verbatim>\<open>textContent\<close>, so it is the content of a text
  node, character for character.
\<close>

theorem sink_writes:
  assumes "i < length (elements s)"
    and "element (elements s ! i) = Some n" and "fault n = NoFault"
    and "fullText (elements s ! i) \<noteq> []"
    and "currentText (elements s ! i)
           = take (length (currentText (elements s ! i))) (fullText (elements s ! i))"
  shows "(isVisible (elements s ! i)
          \<and> length (currentText (elements s ! i)) < length (fullText (elements s ! i))
          \<longrightarrow> element (elements (typeText i sl s) ! i)
                = Some (n\<lparr>children :=
                    [TextNode (take (Suc (length (currentText (elements s ! i))))
                                 (fullText (elements s ! i))),
                     CursorSpan (cursorChar s)]\<rparr>))
       \<and> (isVisible (elements s ! i)
          \<and> \<not> length (currentText (elements s ! i)) < length (fullText (elements s ! i))
          \<longrightarrow> element (elements (typeText i sl s) ! i)
                = Some (n\<lparr>children := [TextNode (fullText (elements s ! i))]\<rparr>))
       \<and> element (elements (loopRestart i sl s) ! i) = Some (n\<lparr>children := []\<rparr>)
       \<and> element (elements (start_item sl s i) ! i) = Some (n\<lparr>children := []\<rparr>)"
proof -
  let ?cur = "currentText (elements s ! i)" and ?full = "fullText (elements s ! i)"
  have "element (elements (typeText i sl s) ! i)
      = Some (n\<lparr>children := [TextNode (take (Suc (length ?cur)) ?full),
                               CursorSpan (cursorChar s)]\<rparr>)"
    if v: "isVisible (elements s ! i)" and l: "length ?cur < length ?full"
  proof -
    from l assms(5) have "take (Suc (length ?cur)) ?full = ?cur @ [?full ! length ?cur]"
      by (simp add: take_Suc_conv_app_nth)
    with typeText_writes_prefix [OF assms(1) v assms(2,3) l, of sl] show ?thesis by simp
  qed
  moreover have "element (elements (typeText i sl s) ! i) = Some (n\<lparr>children := [TextNode ?full]\<rparr>)"
    if v: "isVisible (elements s ! i)" and l: "\<not> length ?cur < length ?full"
    using typeText_writes_full [OF assms(1) v assms(2,3) l assms(4)] .
  moreover have "element (elements (loopRestart i sl s) ! i) = Some (n\<lparr>children := []\<rparr>)"
    using assms(1,2,3) by (rule loopRestart_clears)
  moreover have "element (elements (start_item sl s i) ! i) = Some (n\<lparr>children := []\<rparr>)"
    using start_item_healthy(1) [OF assms(1,2), of sl] assms(3) by (simp add: reset_def)
  ultimately show ?thesis by blast
qed

lemma hi_yo_init_facts:
  "0 < length (elements hi_yo)" "\<not> isVisible (elements hi_yo ! 0)"
  "element (elements hi_yo ! 0)
     = Some \<lparr>node_id = 0, children = [TextNode ''Hi''], fault = NoFault\<rparr>"
  "fullText (elements hi_yo ! 0) = ''Hi''" "currentText (elements hi_yo ! 0) = []"
  by (simp_all add: hi_yo_init fixture_defs)

lemma hi_yo_at0_facts:
  "0 < length (elements hi_yo_visible)" "isVisible (elements hi_yo_visible ! 0)"
  "element (elements hi_yo_visible ! 0) = Some \<lparr>node_id = 0, children = [], fault = NoFault\<rparr>"
  "fullText (elements hi_yo_visible ! 0) = ''Hi''" "currentText (elements hi_yo_visible ! 0) = []"
  "cursorChar hi_yo_visible = ''|''"
  by (simp_all add: hi_yo_at0 fixture_defs)

lemma hi_yo_at4_facts:
  "0 < length (elements ((fire_next ^^ 4) hi_yo_visible))"
  "isVisible (elements ((fire_next ^^ 4) hi_yo_visible) ! 0)"
  "element (elements ((fire_next ^^ 4) hi_yo_visible) ! 0)
     = Some \<lparr>node_id = 0, children = [TextNode ''Hi'', CursorSpan ''|''], fault = NoFault\<rparr>"
  "fullText (elements ((fire_next ^^ 4) hi_yo_visible) ! 0) = ''Hi''"
  "currentText (elements ((fire_next ^^ 4) hi_yo_visible) ! 0) = ''Hi''"
  unfolding hi_yo_at4
  by (simp_all add: fixture_defs)

theorem sink_writes_witness:
  "element (elements (typeText 0 [0, 1] hi_yo_visible) ! 0)
     = Some \<lparr>node_id = 0, children = [TextNode ''H'', CursorSpan ''|''], fault = NoFault\<rparr>
   \<and> element (elements (typeText 0 [0, 1] ((fire_next ^^ 4) hi_yo_visible)) ! 0)
     = Some \<lparr>node_id = 0, children = [TextNode ''Hi''], fault = NoFault\<rparr>
   \<and> element (elements (loopRestart 0 [0, 1] ((fire_next ^^ 4) hi_yo_visible)) ! 0)
     = Some \<lparr>node_id = 0, children = [], fault = NoFault\<rparr>
   \<and> \<not> isVisible (elements hi_yo ! 0)
   \<and> element (elements (start_item [0, 1] hi_yo 0) ! 0)
     = Some \<lparr>node_id = 0, children = [], fault = NoFault\<rparr>"
proof -
  have a: "element (elements (typeText 0 [0, 1] hi_yo_visible) ! 0)
     = Some \<lparr>node_id = 0, children = [TextNode ''H'', CursorSpan ''|''], fault = NoFault\<rparr>"
    using sink_writes [OF hi_yo_at0_facts(1,3), of "[0, 1]"] hi_yo_at0_facts
    by simp
  have b: "element (elements (typeText 0 [0, 1] ((fire_next ^^ 4) hi_yo_visible)) ! 0)
     = Some \<lparr>node_id = 0, children = [TextNode ''Hi''], fault = NoFault\<rparr>
   \<and> element (elements (loopRestart 0 [0, 1] ((fire_next ^^ 4) hi_yo_visible)) ! 0)
     = Some \<lparr>node_id = 0, children = [], fault = NoFault\<rparr>"
    using sink_writes [OF hi_yo_at4_facts(1,3), of "[0, 1]"] hi_yo_at4_facts
    by (simp del: funpow.simps)
  have c: "element (elements (start_item [0, 1] hi_yo 0) ! 0)
     = Some \<lparr>node_id = 0, children = [], fault = NoFault\<rparr>"
    using sink_writes [OF hi_yo_init_facts(1,3), of "[0, 1]"] hi_yo_init_facts
    by simp
  from a b c hi_yo_init_facts(2) show ?thesis by simp
qed

subsection \<open>Monotonic reveal in the event loop\<close>

lemma frame_nth:
  assumes "map f (elements s') = (map f (elements s))[j := v]" and "i < length (elements s)"
  shows "f (elements s' ! i) = (if i = j then v else f (elements s ! i))"
proof -
  from assms(1) have "length (elements s') = length (elements s)"
    by (metis length_list_update length_map)
  with assms(2) have "f (elements s' ! i) = map f (elements s') ! i" by simp
  also have "\<dots> = (if i = j then v else f (elements s ! i))"
    using assms(2) by (simp add: assms(1))
  finally show ?thesis .
qed

lemma fire_next_earliest: "earliest (timers s) = Some t \<Longrightarrow> fire_next s = fire t s"
  by (simp add: fire_next_def)

lemma fire_TypeText:
  "cb t = TypeText j sl \<Longrightarrow>
   fire t s = typeText j sl
     (s\<lparr>timers := filter (\<lambda>u. tid u \<noteq> tid t) (timers s), now := max (now s) (due t)\<rparr>)"
  by (simp add: fire_def run_callback_def)

lemma fire_LoopRestart:
  "cb t = LoopRestart j sl \<Longrightarrow>
   fire t s = loopRestart j sl
     (s\<lparr>timers := filter (\<lambda>u. tid u \<noteq> tid t) (timers s), now := max (now s) (due t)\<rparr>)"
  by (simp add: fire_def run_callback_def)

lemma typing_step_never_shortens:
  assumes "earliest (timers s) = Some t" and "cb t = TypeText j sl" and "i < length (elements s)"
  shows "length (currentText (elements s ! i)) \<le> length (currentText (elements (fire_next s) ! i))"
proof -
  let ?s1 = "s\<lparr>timers := filter (\<lambda>u. tid u \<noteq> tid t) (timers s), now := max (now s) (due t)\<rparr>"
  have "map currentText (elements (typeText j sl ?s1))
      = (map currentText (elements ?s1))[j := currentText (typed (elements ?s1 ! j))]"
    by (rule typeText_frame) simp
  then have "currentText (elements (typeText j sl ?s1) ! i)
      = (if i = j then currentText (typed (elements ?s1 ! j)) else currentText (elements ?s1 ! i))"
    using assms(3) by (intro frame_nth) simp_all
  then show ?thesis
    using assms(1,2) by (simp add: fire_next_earliest fire_TypeText typed_def)
qed

lemma loop_restart_resets:
  assumes "earliest (timers s) = Some t" and "cb t = LoopRestart j sl" and "i < length (elements s)"
  shows "currentText (elements (fire_next s) ! i)
       = (if i = j then [] else currentText (elements s ! i))"
proof -
  let ?s1 = "s\<lparr>timers := filter (\<lambda>u. tid u \<noteq> tid t) (timers s), now := max (now s) (due t)\<rparr>"
  have "map currentText (elements (loopRestart j sl ?s1))
      = (map currentText (elements ?s1))[j := currentText (cleared (elements ?s1 ! j))]"
    by (rule loopRestart_frame) simp
  then have "currentText (elements (loopRestart j sl ?s1) ! i)
      = (if i = j then currentText (cleared (elements ?s1 ! j)) else currentText (elements ?s1 ! i))"
    using assms(3) by (intro frame_nth) simp_all
  then show ?thesis
    using assms(1,2) by (simp add: fire_next_earliest fire_LoopRestart cleared_def)
qed

lemma start_item_resets:
  assumes "i < length (elements s)"
  shows "currentText (elements (start_item sl s j) ! i)
       = (if i = j then [] else currentText (elements s ! i))"
proof -
  have "map currentText (elements (start_item sl s j))
      = (map currentText (elements s))[j := currentText (reset (elements s ! j))]"
    by (rule start_item_frame) simp
  then have "currentText (elements (start_item sl s j) ! i)
      = (if i = j then currentText (reset (elements s ! j)) else currentText (elements s ! i))"
    using assms by (intro frame_nth) simp_all
  then show ?thesis by (simp add: reset_def)
qed

lemma foldl_start_resets:
  assumes "i < length (elements s)"
  shows "currentText (elements (foldl (start_item sl) s js) ! i)
       = (if i \<in> set js then [] else currentText (elements s ! i))"
  using assms
  by (induction js arbitrary: s) (simp_all add: start_item_resets)

lemma on_entry_resets:
  assumes "i < length (elements s)"
  shows "currentText (elements (on_entry s e) ! i) = currentText (elements s ! i)
       \<or> currentText (elements (on_entry s e) ! i) = []"
  using assms by (simp add: on_entry_def Let_def foldl_start_resets)

lemma on_entry_length [simp]: "length (elements (on_entry s e)) = length (elements s)"
  by (simp add: on_entry_def Let_def)

lemma trigger_resets:
  assumes "i < length (elements s)"
  shows "currentText (elements (observer_callback es s) ! i) = currentText (elements s ! i)
       \<or> currentText (elements (observer_callback es s) ! i) = []"
  using assms unfolding observer_callback_def
proof (induction es arbitrary: s)
  case Nil
  then show ?case by simp
next
  case (Cons e es)
  from Cons.prems have "i < length (elements (on_entry s e))" by simp
  from Cons.IH [OF this] on_entry_resets [OF Cons.prems, of e] show ?case
    by auto
qed

lemma typeText_reschedules:
  assumes "i < length (elements s)" and "isVisible (elements s ! i)"
    and "element (elements s ! i) = Some n" and "fault n = NoFault"
    and "length (currentText (elements s ! i)) < length (fullText (elements s ! i))"
  shows "timers (typeText i sl s)
       = timers s @ [\<lparr>tid = nextId s, due = now s + typingSpeed s, cb = TypeText i sl\<rparr>]"
  using assms
  by (simp add: typeText_def typeText_body_def Let_def write_text_def append_cursor_def
        set_textContent_def appendCursor_def and_then_def upd_def schedule_def setTimeout_def)

lemma typing_step:
  assumes "earliest (timers s) = Some t" and "cb t = TypeText i sl"
    and "i < length (elements s)" and "isVisible (elements s ! i)"
    and "element (elements s ! i) = Some n" and "fault n = NoFault"
    and "length (currentText (elements s ! i)) < length (fullText (elements s ! i))"
  shows "currentText (elements (fire_next s) ! i)
           = currentText (elements s ! i)
             @ [fullText (elements s ! i) ! length (currentText (elements s ! i))]"
    and "timers (fire_next s)
           = filter (\<lambda>u. tid u \<noteq> tid t) (timers s)
             @ [\<lparr>tid = nextId s, due = max (now s) (due t) + typingSpeed s, cb = TypeText i sl\<rparr>]"
    and "element (elements (fire_next s) ! i)
           = Some (n\<lparr>children :=
               [TextNode (currentText (elements s ! i)
                            @ [fullText (elements s ! i) ! length (currentText (elements s ! i))]),
                CursorSpan (cursorChar s)]\<rparr>)"
    and "isVisible (elements (fire_next s) ! i)"
    and "fullText (elements (fire_next s) ! i) = fullText (elements s ! i)"
    and "length (elements (fire_next s)) = length (elements s)"
proof -
  let ?s1 = "s\<lparr>timers := filter (\<lambda>u. tid u \<noteq> tid t) (timers s), now := max (now s) (due t)\<rparr>"
  have f: "fire_next s = typeText i sl ?s1"
    using assms(1,2) by (simp add: fire_next_earliest fire_TypeText)
  have a: "i < length (elements ?s1)" "isVisible (elements ?s1 ! i)"
    "element (elements ?s1 ! i) = Some n"
    "length (currentText (elements ?s1 ! i)) < length (fullText (elements ?s1 ! i))"
    using assms by simp_all
  have t: "typed (elements s ! i) = (elements s ! i)\<lparr>currentText := currentText (elements s ! i)
             @ [fullText (elements s ! i) ! length (currentText (elements s ! i))]\<rparr>"
    using assms by (simp add: typed_def)
  show "currentText (elements (fire_next s) ! i)
           = currentText (elements s ! i)
             @ [fullText (elements s ! i) ! length (currentText (elements s ! i))]"
    unfolding f using typeText_nth [of currentText i ?s1 sl] a(1) t by simp
  show "timers (fire_next s)
           = filter (\<lambda>u. tid u \<noteq> tid t) (timers s)
             @ [\<lparr>tid = nextId s, due = max (now s) (due t) + typingSpeed s, cb = TypeText i sl\<rparr>]"
    unfolding f using typeText_reschedules [OF a(1,2,3) assms(6) a(4), of sl] by simp
  show "element (elements (fire_next s) ! i)
           = Some (n\<lparr>children :=
               [TextNode (currentText (elements s ! i)
                            @ [fullText (elements s ! i) ! length (currentText (elements s ! i))]),
                CursorSpan (cursorChar s)]\<rparr>)"
    unfolding f using typeText_writes_prefix [OF a(1,2,3) assms(6) a(4), of sl] by simp
  show "isVisible (elements (fire_next s) ! i)"
    unfolding f using typeText_nth [of isVisible i ?s1 sl] a(1) t assms(4) by simp
  show "fullText (elements (fire_next s) ! i) = fullText (elements s ! i)"
    unfolding f using typeText_nth [of fullText i ?s1 sl] a(1) t by simp
  have "map fullText (elements (typeText i sl ?s1))
      = (map fullText (elements ?s1))[i := fullText (typed (elements ?s1 ! i))]"
    by (rule typeText_frame) simp
  then have "length (elements (typeText i sl ?s1)) = length (elements ?s1)"
    by (metis length_list_update length_map)
  then show "length (elements (fire_next s)) = length (elements s)"
    unfolding f by simp
qed

lemma single_chain:
  assumes "timers s = [t]" and "cb t = TypeText i sl"
    and "i < length (elements s)" and "isVisible (elements s ! i)"
    and "element (elements s ! i) = Some n" and "fault n = NoFault"
    and "currentText (elements s ! i) = []"
    and "k \<le> length (fullText (elements s ! i))"
  shows "\<exists>t' n'. timers ((fire_next ^^ k) s) = [t'] \<and> cb t' = TypeText i sl
           \<and> length (elements ((fire_next ^^ k) s)) = length (elements s)
           \<and> isVisible (elements ((fire_next ^^ k) s) ! i)
           \<and> element (elements ((fire_next ^^ k) s) ! i) = Some n' \<and> fault n' = NoFault
           \<and> fullText (elements ((fire_next ^^ k) s) ! i) = fullText (elements s ! i)
           \<and> currentText (elements ((fire_next ^^ k) s) ! i) = take k (fullText (elements s ! i))"
  using assms(8)
proof (induction k)
  case 0
  with assms show ?case by simp
next
  case (Suc k)
  let ?u = "(fire_next ^^ k) s"
  let ?full = "fullText (elements s ! i)"
  from Suc obtain t' n' where ih: "timers ?u = [t']" "cb t' = TypeText i sl"
    "length (elements ?u) = length (elements s)" "isVisible (elements ?u ! i)"
    "element (elements ?u ! i) = Some n'" "fault n' = NoFault"
    "fullText (elements ?u ! i) = ?full" "currentText (elements ?u ! i) = take k ?full"
    by auto
  from Suc.prems have k: "k < length ?full" by simp
  have e: "earliest (timers ?u) = Some t'" by (simp add: ih(1))
  have i: "i < length (elements ?u)" using ih(3) assms(3) by simp
  have l: "length (currentText (elements ?u ! i)) < length (fullText (elements ?u ! i))"
    using k by (simp add: ih)
  note st = typing_step [OF e ih(2) i ih(4,5,6) l]
  have "timers (fire_next ?u)
      = [\<lparr>tid = nextId ?u, due = max (now ?u) (due t') + typingSpeed ?u, cb = TypeText i sl\<rparr>]"
    using st(2) by (simp add: ih(1))
  moreover have "currentText (elements (fire_next ?u) ! i) = take (Suc k) ?full"
    using st(1) k by (simp add: ih take_Suc_conv_app_nth)
  moreover have "fault (n'\<lparr>children := c\<rparr>) = NoFault" for c
    by (simp add: ih(6))
  ultimately show ?case
    using st(3,4,5,6) ih(3,7) by simp
qed

lemma hello_init:
  "hello = demo_state 0 1 [demo_item 0 ''Hello'' [] [TextNode ''Hello''] False None] [] []"
  by (simp add: hello_def fixture_defs init_defs)

lemma hello_at0:
  "hello_visible =
    demo_state 0 2 [demo_item 0 ''Hello'' [] [] True None] [1] [tm 1 0 (TypeText 0 [0])]"
  unfolding hello_visible_def hello_init
  by (simp add: observer_defs fixture_defs step_defs)

lemma hello_at1:
  "(fire_next ^^ 1) hello_visible =
    demo_state 0 3 [demo_item 0 ''Hello'' ''H'' [TextNode ''H'', CursorSpan ''|''] True None]
      [1, 2] [tm 2 10 (TypeText 0 [0])]"
  unfolding funpow_unroll(1) hello_at0
  by (simp add: fixture_defs step_defs)

lemma hello_at2:
  "(fire_next ^^ 2) hello_visible =
    demo_state 10 4 [demo_item 0 ''Hello'' ''He'' [TextNode ''He'', CursorSpan ''|''] True None]
      [1, 2, 3] [tm 3 20 (TypeText 0 [0])]"
  unfolding funpow_unroll(2) hello_at1
  by (simp add: fixture_defs step_defs)

lemma hello_at3:
  "(fire_next ^^ 3) hello_visible =
    demo_state 20 5 [demo_item 0 ''Hello'' ''Hel'' [TextNode ''Hel'', CursorSpan ''|''] True None]
      [1, 2, 3, 4] [tm 4 30 (TypeText 0 [0])]"
  unfolding funpow_unroll(3) hello_at2
  by (simp add: fixture_defs step_defs)

lemma hello_again0:
  "hello_retriggered =
    demo_state 20 6 [demo_item 0 ''Hello'' [] [] True None]
      [1, 2, 3, 4, 5] [tm 4 30 (TypeText 0 [0]), tm 5 20 (TypeText 0 [0])]"
  unfolding hello_retriggered_def hello_at3
  by (simp add: observer_defs fixture_defs step_defs)

lemma hello_again1:
  "(fire_next ^^ 1) hello_retriggered =
    demo_state 20 7 [demo_item 0 ''Hello'' ''H'' [TextNode ''H'', CursorSpan ''|''] True None]
      [1, 2, 3, 4, 5, 6] [tm 4 30 (TypeText 0 [0]), tm 6 30 (TypeText 0 [0])]"
  unfolding funpow_unroll(1) hello_again0
  by (simp add: fixture_defs step_defs)

lemma hello_again2:
  "(fire_next ^^ 2) hello_retriggered =
    demo_state 30 8 [demo_item 0 ''Hello'' ''He'' [TextNode ''He'', CursorSpan ''|''] True None]
      [1, 2, 3, 4, 5, 6, 7] [tm 6 30 (TypeText 0 [0]), tm 7 40 (TypeText 0 [0])]"
  unfolding funpow_unroll(2) hello_again1
  by (simp add: fixture_defs step_defs)

lemma hello_again3:
  "(fire_next ^^ 3) hello_retriggered =
    demo_state 30 9 [demo_item 0 ''Hello'' ''Hel'' [TextNode ''Hel'', CursorSpan ''|''] True None]
      [1, 2, 3, 4, 5, 6, 7, 8] [tm 7 40 (TypeText 0 [0]), tm 8 40 (TypeText 0 [0])]"
  unfolding funpow_unroll(3) hello_again2
  by (simp add: fixture_defs step_defs)

lemma hello_again4:
  "(fire_next ^^ 4) hello_retriggered =
    demo_state 40 10 [demo_item 0 ''Hello'' ''Hell'' [TextNode ''Hell'', CursorSpan ''|''] True None]
      [1, 2, 3, 4, 5, 6, 7, 8, 9] [tm 8 40 (TypeText 0 [0]), tm 9 50 (TypeText 0 [0])]"
  unfolding funpow_unroll(4) hello_again3
  by (simp add: fixture_defs step_defs)

lemma hello_again5:
  "(fire_next ^^ 5) hello_retriggered =
    demo_state 40 11 [demo_item 0 ''Hello'' ''Hello'' [TextNode ''Hello'', CursorSpan ''|''] True None]
      [1, 2, 3, 4, 5, 6, 7, 8, 9, 10] [tm 9 50 (TypeText 0 [0]), tm 10 50 (TypeText 0 [0])]"
  unfolding funpow_unroll(5) hello_again4
  by (simp add: fixture_defs step_defs)

lemma on_entry_keeps_steps:
  assumes "reachable s" and "x \<in> set (timers s)" and "\<not> is_loop (cb x)"
  shows "x \<in> set (timers (on_entry s e))"
proof (cases "snd e")
  case False
  with assms(2) show ?thesis by (simp add: on_entry_def)
next
  case True
  let ?sl = "slideItems_of (fst e) s"
  from assms(1) have "loop_inv s" by (rule reachable_loop_inv)
  then have h: "handles_ok (timers s) (map loopTimeout (elements s)) (nextId s)"
    by (simp add: loop_inv_def abs_inv_def)
  have "loopTimeout (elements s ! j) \<noteq> Some (tid x)" if "j \<in> set ?sl" for j
  proof
    assume a: "loopTimeout (elements s ! j) = Some (tid x)"
    from that have "j < length (elements s)" by (simp add: slideItems_of_iff)
    with a h assms(2) have "is_loop (cb x)" by (auto simp: handles_ok_def)
    with assms(3) show False by simp
  qed
  with assms(2) have "x \<in> set (timers (foldl clear_loop s ?sl))"
    by (simp add: foldl_clear_timers)
  then have "x \<in> set (timers (foldl (start_item ?sl) (foldl clear_loop s ?sl) ?sl))"
    using foldl_start_timers_grow by blast
  with True show ?thesis by (simp add: on_entry_def Let_def)
qed

lemma reachable_on_entry: "reachable s \<Longrightarrow> reachable (on_entry s e)"
  using reachable.notify [of s "[e]"] by (simp add: observer_callback_def)

lemma trigger_keeps_steps:
  assumes "reachable s" and "x \<in> set (timers s)" and "\<not> is_loop (cb x)"
  shows "x \<in> set (timers (observer_callback es s))"
  using assms unfolding observer_callback_def
proof (induction es arbitrary: s)
  case Nil
  then show ?case by simp
next
  case (Cons e es)
  from Cons.prems have "reachable (on_entry s e)" "x \<in> set (timers (on_entry s e))"
    by (simp_all add: reachable_on_entry on_entry_keeps_steps)
  from Cons.IH [OF this Cons.prems(3)] show ?case by simp
qed



lemma hello_visible_facts:
  "0 < length (elements hello_visible)"
  "timers hello_visible = [tm 1 0 (TypeText 0 [0])]"
  "earliest (timers hello_visible) = Some (tm 1 0 (TypeText 0 [0]))"
  "cb (tm 1 0 (TypeText 0 [0])) = TypeText 0 [0]"
  "isVisible (elements hello_visible ! 0)"
  "element (elements hello_visible ! 0) = Some \<lparr>node_id = 0, children = [], fault = NoFault\<rparr>"
  "currentText (elements hello_visible ! 0) = []"
  "fullText (elements hello_visible ! 0) = ''Hello''"
  "nextId hello_visible = 2" "now hello_visible = 0" "typingSpeed hello_visible = 10"
  by (simp_all add: hello_at0 fixture_defs)

lemma reachable_hello_visible: "reachable hello_visible"
  unfolding hello_visible_def hello_def
  by (rule reachable.notify) (rule reachable.start)

lemma hello_at3_facts:
  "0 < length (elements ((fire_next ^^ 3) hello_visible))"
  "tm 4 30 (TypeText 0 [0]) \<in> set (timers ((fire_next ^^ 3) hello_visible))"
  "\<not> is_loop (cb (tm 4 30 (TypeText 0 [0])))"
  "currentText (elements ((fire_next ^^ 3) hello_visible) ! 0) = ''Hel''"
  unfolding hello_at3
  by (simp_all add: demo_state_def demo_item_def tm_def is_loop_def)


subsection \<open>Fields that never change\<close>

lemma static_typeText:
  assumes "static_field f"
  shows "map f (elements (typeText i sl s)) = map f (elements s)"
proof -
  from assms have "frame_field f" "f (typed (elements s ! i)) = f (elements s ! i)"
    by (simp_all add: static_field_def typed_def)
  then show ?thesis
    by (simp add: typeText_frame map_update_id)
qed

lemma static_loopRestart:
  assumes "static_field f"
  shows "map f (elements (loopRestart j sl s)) = map f (elements s)"
proof -
  from assms have "frame_field f" "f (cleared (elements s ! j)) = f (elements s ! j)"
    by (simp_all add: static_field_def cleared_def)
  then show ?thesis
    by (simp add: loopRestart_frame map_update_id)
qed

lemma static_start_item:
  assumes "static_field f"
  shows "map f (elements (start_item sl s j)) = map f (elements s)"
proof -
  from assms have "frame_field f" "f (reset (elements s ! j)) = f (elements s ! j)"
    by (simp_all add: static_field_def reset_def)
  then show ?thesis
    by (simp add: start_item_frame map_update_id)
qed

lemma static_foldl_start:
  assumes "static_field f"
  shows "map f (elements (foldl (start_item sl) s js)) = map f (elements s)"
  by (induction js arbitrary: s) (simp_all add: static_start_item [OF assms])

lemma static_on_entry:
  assumes "static_field f"
  shows "map f (elements (on_entry s e)) = map f (elements s)"
  by (simp add: on_entry_def Let_def static_foldl_start [OF assms])

lemma static_observer_callback:
  assumes "static_field f"
  shows "map f (elements (observer_callback es s)) = map f (elements s)"
  unfolding observer_callback_def
  by (induction es arbitrary: s) (simp_all add: static_on_entry [OF assms])

lemma static_fire:
  assumes "static_field f"
  shows "map f (elements (fire t s)) = map f (elements s)"
  by (simp add: fire_def run_callback_def static_typeText [OF assms] static_loopRestart [OF assms]
        split: callback.splits)

lemma static_fire_next:
  assumes "static_field f"
  shows "map f (elements (fire_next s)) = map f (elements s)"
  by (simp add: fire_next_def static_fire [OF assms] split: option.splits)

lemma evolves_static:
  assumes "static_field f" and "evolves s0 s"
  shows "map f (elements s) = map f (elements s0)"
  using assms(2)
proof (induction rule: evolves.induct)
  case here
  show ?case by simp
next
  case (notify s entries)
  then show ?case by (simp add: static_observer_callback [OF assms(1)])
next
  case (timeout s)
  then show ?case by (simp add: static_fire_next [OF assms(1)])
next
  case (wait s t)
  then show ?case by simp
next
  case (unload s)
  then show ?case by simp
qed

lemma static_field_simps [simp]:
  "static_field fullText" "static_field slideElement" "static_field staggerIndex"
  "static_field (\<lambda>it. map_option node_id (element it))"
  "static_field (\<lambda>it. map_option fault (element it))"
  by (simp_all add: static_field_def frame_field_def)

lemma evolves_reachable: "evolves (init doc (constructor opts)) s \<Longrightarrow> reachable s"
  by (induction rule: evolves.induct) (auto intro: reachable.intros)

subsection \<open>Timers refer to tracked items\<close>

lemmas tok_and_then = and_then_final [where P = "timers_ok n" for n]

lemma tok_upd [simp]: "timers_ok n (upd i g s) = timers_ok n s"
  by (simp add: timers_ok_def)

lemma tok_console_log [simp]: "timers_ok n (console_log m s) = timers_ok n s"
  by (simp add: timers_ok_def console_log_def)

lemma tok_write_text: "timers_ok n s \<Longrightarrow> timers_ok n (final (write_text i txt s))"
  by (simp add: write_text_def split: option.splits sum.splits)

lemma tok_append_cursor: "timers_ok n s \<Longrightarrow> timers_ok n (final (append_cursor i s))"
  by (simp add: append_cursor_def split: option.splits sum.splits)

lemma tok_schedule: "timers_ok n s \<Longrightarrow> cb_ok n c \<Longrightarrow> timers_ok n (schedule c d s)"
  by (simp add: timers_ok_def schedule_def setTimeout_def)

lemma tok_arm_loop:
  "timers_ok n s \<Longrightarrow> cb_ok n (LoopRestart j sl) \<Longrightarrow> timers_ok n (arm_loop sl s j)"
  by (simp add: timers_ok_def arm_loop_def setTimeout_def Let_def)

lemma tok_foldl_arm:
  "timers_ok n s \<Longrightarrow> list_all (\<lambda>j. j < n) js \<Longrightarrow> list_all (\<lambda>j. j < n) sl
   \<Longrightarrow> timers_ok n (foldl (arm_loop sl) s js)"
  by (induction js arbitrary: s) (simp_all add: tok_arm_loop cb_ok_def)

lemma tok_typeText_body:
  "timers_ok n s \<Longrightarrow> cb_ok n (TypeText i sl) \<Longrightarrow> timers_ok n (final (typeText_body i sl s))"
  unfolding typeText_body_def Let_def
  by (auto intro!: tok_and_then tok_write_text tok_append_cursor tok_schedule tok_foldl_arm
        simp: cb_ok_def)

lemma tok_typeText:
  "timers_ok n s \<Longrightarrow> cb_ok n (TypeText i sl) \<Longrightarrow> timers_ok n (typeText i sl s)"
  using tok_typeText_body [of n s i sl]
  by (cases "typeText_body i sl s") (simp_all add: typeText_def)

lemma tok_loopRestart_body:
  "timers_ok n s \<Longrightarrow> cb_ok n (LoopRestart j sl)
   \<Longrightarrow> timers_ok n (final (loopRestart_body j sl s))"
  unfolding loopRestart_body_def Let_def
  by (auto intro!: tok_and_then tok_write_text tok_schedule simp: cb_ok_def)

lemma tok_loopRestart:
  "timers_ok n s \<Longrightarrow> cb_ok n (LoopRestart j sl) \<Longrightarrow> timers_ok n (loopRestart j sl s)"
  using tok_loopRestart_body [of n s j sl]
  by (cases "loopRestart_body j sl s") (simp_all add: loopRestart_def)

lemma tok_clear_loop: "timers_ok n s \<Longrightarrow> timers_ok n (clear_loop s j)"
  by (auto simp: timers_ok_def clear_loop_def clearTimeout_def list_all_iff Let_def
           split: option.splits)

lemma tok_foldl_clear: "timers_ok n s \<Longrightarrow> timers_ok n (foldl clear_loop s js)"
  by (induction js arbitrary: s) (simp_all add: tok_clear_loop)

lemma tok_start_item_body:
  "timers_ok n s \<Longrightarrow> cb_ok n (TypeText j sl) \<Longrightarrow> timers_ok n (final (start_item_body sl s j))"
  unfolding start_item_body_def Let_def
  by (auto intro!: tok_and_then tok_write_text tok_schedule)

lemma tok_start_item:
  "timers_ok n s \<Longrightarrow> cb_ok n (TypeText j sl) \<Longrightarrow> timers_ok n (start_item sl s j)"
  using tok_start_item_body [of n s j sl]
  by (cases "start_item_body sl s j") (simp_all add: start_item_def)

lemma tok_foldl_start:
  "timers_ok n s \<Longrightarrow> list_all (\<lambda>j. j < n) js \<Longrightarrow> list_all (\<lambda>j. j < n) sl
   \<Longrightarrow> timers_ok n (foldl (start_item sl) s js)"
  by (induction js arbitrary: s) (simp_all add: tok_start_item cb_ok_def)

lemma tok_on_entry: "timers_ok n s \<Longrightarrow> timers_ok n (on_entry s e)"
proof -
  assume a: "timers_ok n s"
  then have "list_all (\<lambda>j. j < n) (slideItems_of (fst e) s)"
    by (simp add: timers_ok_def slideItems_of_def list_all_iff)
  with a show ?thesis
    by (simp add: on_entry_def Let_def tok_foldl_start tok_foldl_clear)
qed

lemma tok_observer_callback: "timers_ok n s \<Longrightarrow> timers_ok n (observer_callback es s)"
  unfolding observer_callback_def
  by (induction es arbitrary: s) (simp_all add: tok_on_entry)

lemma tok_fire: "timers_ok n s \<Longrightarrow> t \<in> set (timers s) \<Longrightarrow> timers_ok n (fire t s)"
proof -
  assume a: "timers_ok n s" and t: "t \<in> set (timers s)"
  let ?s1 = "s\<lparr>timers := filter (\<lambda>u. tid u \<noteq> tid t) (timers s), now := max (now s) (due t)\<rparr>"
  from a have "timers_ok n ?s1"
    by (auto simp: timers_ok_def list_all_iff)
  moreover from a t have "cb_ok n (cb t)"
    by (auto simp: timers_ok_def list_all_iff)
  ultimately show ?thesis
    by (auto simp: fire_def run_callback_def tok_typeText tok_loopRestart split: callback.splits)
qed

lemma earliest_mem: "earliest ts = Some t \<Longrightarrow> t \<in> set ts"
  by (induction ts arbitrary: t) (auto split: option.splits if_splits)

lemma tok_fire_next: "timers_ok n s \<Longrightarrow> timers_ok n (fire_next s)"
  by (auto simp: fire_next_def tok_fire earliest_mem split: option.splits)

lemma tok_destroy: "timers_ok n s \<Longrightarrow> timers_ok n (destroy s)"
  by (auto simp: destroy_eq timers_ok_def list_all_iff)

lemma evolves_timers_ok:
  assumes "evolves s0 s" and "timers_ok n s0"
  shows "timers_ok n s"
  using assms
proof (induction rule: evolves.induct)
  case here
  then show ?case by simp
next
  case (notify s entries)
  then show ?case by (simp add: tok_observer_callback)
next
  case (timeout s)
  then show ?case by (simp add: tok_fire_next)
next
  case (wait s t)
  then show ?case by (simp add: timers_ok_def)
next
  case (unload s)
  then show ?case by (simp add: tok_destroy)
qed

lemma init_timers_ok:
  "timers_ok (length (elements (init doc (constructor opts)))) (init doc (constructor opts))"
  by (simp add: timers_ok_def init_def constructor_def observe_all_def console_log_def)

subsection \<open>Registration\<close>

lemma group_push_members:
  "\<Union>(set ` snd ` set (group_push k e gs)) = insert e (\<Union>(set ` snd ` set gs))"
proof (induction gs)
  case Nil
  show ?case by simp
next
  case (Cons g gs)
  obtain k' es where g: "g = (k', es)" by (cases g)
  show ?case
  proof (cases "k = k'")
    case True
    then show ?thesis by (simp add: g)
  next
    case False
    with Cons.IH show ?thesis by (simp add: g)
  qed
qed

lemma group_step_members:
  "\<Union>(set ` snd ` set (group_step gs e)) \<subseteq> insert e (\<Union>(set ` snd ` set gs))"
proof (cases "case closest_slide e of Some k \<Rightarrow> Some k | None \<Rightarrow> closest_help_topic e")
  case None
  then show ?thesis by (auto simp: group_step_def)
next
  case (Some k)
  then have "group_step gs e = group_push k e gs" by (simp add: group_step_def)
  then show ?thesis by (simp only: group_push_members)
qed

lemma foldl_group_step_members:
  "\<Union>(set ` snd ` set (foldl group_step gs doc)) \<subseteq> \<Union>(set ` snd ` set gs) \<union> set doc"
proof (induction doc arbitrary: gs)
  case Nil
  show ?case by simp
next
  case (Cons e doc)
  have "\<Union>(set ` snd ` set (foldl group_step (group_step gs e) doc))
      \<subseteq> \<Union>(set ` snd ` set (group_step gs e)) \<union> set doc"
    by (rule Cons.IH)
  also have "\<dots> \<subseteq> insert e (\<Union>(set ` snd ` set gs)) \<union> set doc"
    using group_step_members [of gs e] by blast
  finally show ?case by auto
qed

lemma slideGroups_members: "g \<in> set (slideGroups doc) \<Longrightarrow> set (snd g) \<subseteq> set doc"
  using foldl_group_step_members [of "[]" doc] by (auto simp: slideGroups_def)

lemma track_group_items:
  assumes "it \<in> set (track_group g)"
  shows "\<exists>e \<in> set (snd g). data_typewriter e \<noteq> [] \<and> element it = Some (node e)
           \<and> fullText it = data_typewriter e"
proof -
  from assms obtain p where p: "p \<in> set (enumerate 0 (snd g))" "it \<in> set (track (fst g) p)"
    by (auto simp: track_group_def)
  from p(1) have "snd p \<in> set (snd g)"
    by (metis in_set_enumerate_eq add.right_neutral diff_zero nth_mem)
  moreover from p(2) have "data_typewriter (snd p) \<noteq> []" "element it = Some (node (snd p))"
    "fullText it = data_typewriter (snd p)"
    by (auto simp: track_def split: if_splits)
  ultimately show ?thesis by blast
qed

lemma init_items:
  assumes "it \<in> set (elements (init doc (constructor opts)))"
  shows "\<exists>e \<in> set doc. data_typewriter e \<noteq> [] \<and> element it = Some (node e)
           \<and> fullText it = data_typewriter e"
proof -
  from assms obtain g where g: "g \<in> set (slideGroups doc)" "it \<in> set (track_group g)"
    by (auto simp: init_def constructor_def observe_all_def console_log_def split: if_splits)
  from track_group_items [OF g(2)] slideGroups_members [OF g(1)] show ?thesis
    by blast
qed

text \<open>
  C10. Let an element of the page carry the directive with the empty string as value.
  Whatever its container, in every state the page reaches after \<^verbatim>\<open>init\<close> no tracked
  item has the node of that element as its sink, every tracked item has a non-empty full
  text, and every pending timer is for a tracked item: no animation state and no timer
  exists for the element. Nodes are told apart by their identity.
\<close>

theorem empty_directive_never_tracked:
  assumes "d \<in> set doc" and "data_typewriter d = []"
    and "distinct (map (\<lambda>e. node_id (node e)) doc)"
    and "evolves (init doc (constructor opts)) s"
  shows "(\<forall>it \<in> set (elements s).
            fullText it \<noteq> [] \<and> map_option node_id (element it) \<noteq> Some (node_id (node d)))
       \<and> (\<forall>t \<in> set (timers s). cb_item (cb t) < length (elements s))"
proof -
  let ?s0 = "init doc (constructor opts)"
  have "fullText it \<noteq> [] \<and> map_option node_id (element it) \<noteq> Some (node_id (node d))"
    if "it \<in> set (elements s)" for it
  proof -
    let ?f = "\<lambda>it. (fullText it, map_option node_id (element it))"
    have "static_field ?f"
      by (simp add: static_field_def frame_field_def)
    then have "map ?f (elements s) = map ?f (elements ?s0)"
      using assms(4) by (rule evolves_static)
    then have "set (map ?f (elements s)) = set (map ?f (elements ?s0))"
      by (rule arg_cong)
    then have i: "?f ` set (elements s) = ?f ` set (elements ?s0)"
      by (simp only: set_map)
    from that have "?f it \<in> ?f ` set (elements s)"
      by (rule imageI)
    then have "?f it \<in> ?f ` set (elements ?s0)"
      by (simp only: i)
    then obtain it0 where it0: "it0 \<in> set (elements ?s0)" "?f it0 = ?f it"
      by (auto simp only: image_iff)
    from init_items [OF it0(1)] obtain e where e: "e \<in> set doc" "data_typewriter e \<noteq> []"
      "element it0 = Some (node e)" "fullText it0 = data_typewriter e"
      by blast
    from e(2) assms(2) have "e \<noteq> d" by auto
    with e(1) assms(1,3) have "node_id (node e) \<noteq> node_id (node d)"
      by (auto simp: distinct_map dest: inj_onD)
    with e it0(2) show ?thesis by auto
  qed
  moreover have "cb_item (cb t) < length (elements s)" if "t \<in> set (timers s)" for t
  proof -
    have "timers_ok (length (elements ?s0)) s"
      using assms(4) init_timers_ok by (rule evolves_timers_ok)
    with that show ?thesis
      by (auto simp: timers_ok_def list_all_iff cb_ok_def)
  qed
  ultimately show ?thesis by blast
qed

lemma gap_visible_eq:
  "gap_visible =
    demo_state 0 3
      [demo_item 0 ''Hi'' [] [] True None,
       demo_item 2 ''Yo'' [] [] True None]
      [1, 2]
      [tm 1 0 (TypeText 0 [0, 1]), tm 2 10 (TypeText 1 [0, 1])]"
proof -
  have "init gap_page (constructor demo_options) =
    demo_state 0 1
      [demo_item 0 ''Hi'' [] [TextNode ''Hi''] False None,
       demo_item 2 ''Yo'' [] [TextNode ''Yo''] False None]
      []
      []"
    by (simp add: gap_page_def fixture_defs init_defs)
  then show ?thesis
    unfolding gap_visible_def
    by (simp add: observer_defs fixture_defs step_defs)
qed

theorem empty_directive_never_tracked_witness:
  "text_element 1 [] 7 \<in> set gap_page \<and> data_typewriter (text_element 1 [] 7) = []
   \<and> distinct (map (\<lambda>e. node_id (node e)) gap_page)
   \<and> evolves (init gap_page (constructor demo_options)) gap_visible
   \<and> map (\<lambda>it. map_option node_id (element it)) (elements gap_visible) = [Some 0, Some 2]
   \<and> map (\<lambda>t. cb_item (cb t)) (timers gap_visible) = [0, 1]
   \<and> fullText (elements gap_visible ! 1) \<noteq> []
   \<and> map_option node_id (element (elements gap_visible ! 1))
        \<noteq> Some (node_id (node (text_element 1 [] 7)))
   \<and> cb_item (cb (timers gap_visible ! 1)) < length (elements gap_visible)"
proof -
  have a: "text_element 1 [] 7 \<in> set gap_page" "data_typewriter (text_element 1 [] 7) = []"
    "distinct (map (\<lambda>e. node_id (node e)) gap_page)"
    by (simp_all add: gap_page_def text_element_def)
  have b: "evolves (init gap_page (constructor demo_options)) gap_visible"
    unfolding gap_visible_def by (rule evolves.notify) (rule evolves.here)
  have c: "map (\<lambda>it. map_option node_id (element it)) (elements gap_visible) = [Some 0, Some 2]"
    "map (\<lambda>t. cb_item (cb t)) (timers gap_visible) = [0, 1]"
    by (simp_all add: gap_visible_eq fixture_defs)
  have "length (elements gap_visible) = 2" "length (timers gap_visible) = 2"
    by (simp_all add: gap_visible_eq fixture_defs)
  then have m: "elements gap_visible ! 1 \<in> set (elements gap_visible)"
    "timers gap_visible ! 1 \<in> set (timers gap_visible)"
    by simp_all
  from empty_directive_never_tracked [OF a b] m a b c show ?thesis
    by blast
qed

subsection \<open>A step that a timer runs: the guard, an exception, the loop of the group\<close>

lemma upd_nth:
  "elements (upd j g s) ! k
     = (if k = j \<and> j < length (elements s) then g (elements s ! j) else elements s ! k)"
  by (cases "j < length (elements s)") (auto simp: upd_def not_less list_update_beyond)

lemma same_visible_preds:
  assumes "same_visible s s'"
  shows "shown js s' = shown js s" "visible_ok s' = visible_ok s"
    "step_ready i sl s' = step_ready i sl s"
  using assms by (simp_all add: same_visible_def shown_def visible_ok_def step_ready_def)

lemma same_visible_refl [simp]: "same_visible s s"
  by (simp add: same_visible_def)

lemma same_visible_upd:
  assumes "\<And>it. isVisible (g it) = isVisible it"
  shows "same_visible s (upd j g s)"
  by (simp add: same_visible_def upd_nth assms)

lemma same_visible_console_log [simp]: "same_visible s (console_log m s)"
  by (simp add: same_visible_def console_log_def)

lemma same_visible_write_text: "same_visible s (final (write_text i txt s))"
  by (simp add: write_text_def same_visible_upd split: option.splits sum.splits)

lemma same_visible_append_cursor: "same_visible s (final (append_cursor i s))"
  by (simp add: append_cursor_def same_visible_upd split: option.splits sum.splits)

lemmas ready_and_then = and_then_final [where P = "step_ready i sl" for i sl]

lemma ready_upd:
  assumes "\<And>it. isVisible (g it) = isVisible it"
  shows "step_ready i sl (upd j g s) = step_ready i sl s"
  by (rule same_visible_preds) (rule same_visible_upd [OF assms])

lemma ready_write_text: "step_ready i sl (final (write_text k txt s)) = step_ready i sl s"
  by (rule same_visible_preds) (rule same_visible_write_text)

lemma ready_append_cursor: "step_ready i sl (final (append_cursor k s)) = step_ready i sl s"
  by (rule same_visible_preds) (rule same_visible_append_cursor)

lemma ready_console_log [simp]: "step_ready i sl (console_log m s) = step_ready i sl s"
  by (rule same_visible_preds) simp

lemma ready_schedule: "step_ready i sl s \<Longrightarrow> step_ready i sl (schedule (TypeText i sl) d s)"
  by (simp add: step_ready_def visible_ok_def shown_def schedule_def setTimeout_def)

lemma ready_arm_loop:
  assumes "step_ready i sl s" and "j \<in> set sl"
  shows "step_ready i sl (arm_loop sl s j)"
proof -
  have v: "isVisible (elements (arm_loop sl s j) ! k) = isVisible (elements s ! k)" for k
    by (simp add: arm_loop_def setTimeout_def Let_def upd_def)
       (cases "j < length (elements s)", auto simp: not_less list_update_beyond nth_list_update)
  have t: "timers (arm_loop sl s j)
      = timers s @ [\<lparr>tid = nextId s, due = now s + loopDelay s, cb = LoopRestart j sl\<rparr>]"
    by (simp add: arm_loop_def setTimeout_def Let_def upd_def)
  from assms show ?thesis
    by (simp add: step_ready_def visible_ok_def shown_def v t list_all_iff)
qed

lemma ready_foldl_arm:
  assumes "step_ready i sl s" and "set js \<subseteq> set sl"
  shows "step_ready i sl (foldl (arm_loop sl) s js)"
  using assms by (induction js arbitrary: s) (simp_all add: ready_arm_loop)

lemma ready_typeText_body: "step_ready i sl s \<Longrightarrow> step_ready i sl (final (typeText_body i sl s))"
  unfolding typeText_body_def Let_def
  by (auto intro!: ready_and_then ready_schedule ready_foldl_arm
        simp: ready_write_text ready_append_cursor ready_upd)

lemma ready_typeText: "step_ready i sl s \<Longrightarrow> step_ready i sl (typeText i sl s)"
  using ready_typeText_body [of i sl s]
  by (cases "typeText_body i sl s") (simp_all add: typeText_def)

lemma ready_loopRestart_body:
  "step_ready j sl s \<Longrightarrow> step_ready j sl (final (loopRestart_body j sl s))"
  unfolding loopRestart_body_def Let_def
  by (auto intro!: ready_and_then ready_schedule simp: ready_write_text ready_upd)

lemma ready_loopRestart: "step_ready j sl s \<Longrightarrow> step_ready j sl (loopRestart j sl s)"
  using ready_loopRestart_body [of j sl s]
  by (cases "loopRestart_body j sl s") (simp_all add: loopRestart_def)

lemma visible_ok_fire:
  assumes "visible_ok s" and "t \<in> set (timers s)"
  shows "visible_ok (fire t s)"
proof -
  let ?s1 = "s\<lparr>timers := filter (\<lambda>u. tid u \<noteq> tid t) (timers s), now := max (now s) (due t)\<rparr>"
  from assms have r: "step_ready (cb_item (cb t)) (cb_group (cb t)) ?s1"
    by (auto simp: step_ready_def visible_ok_def shown_def list_all_iff)
  show ?thesis
  proof (cases "cb t")
    case (TypeText i sl)
    with r have "step_ready i sl (typeText i sl ?s1)" by (simp add: ready_typeText)
    with TypeText show ?thesis by (simp add: fire_def run_callback_def step_ready_def)
  next
    case (LoopRestart j sl)
    with r have "step_ready j sl (loopRestart j sl ?s1)" by (simp add: ready_loopRestart)
    with LoopRestart show ?thesis by (simp add: fire_def run_callback_def step_ready_def)
  qed
qed

lemma visible_ok_fire_next: "visible_ok s \<Longrightarrow> visible_ok (fire_next s)"
  by (auto simp: fire_next_def visible_ok_fire earliest_mem split: option.splits)

lemma start_item_visible:
  assumes "j < length (elements s)"
  shows "isVisible (elements (start_item sl s j) ! k) = (k = j \<or> isVisible (elements s ! k))"
proof (cases "k = j")
  case False
  then show ?thesis by (simp add: start_item_other)
next
  case True
  have "map isVisible (elements (start_item sl s j))
      = (map isVisible (elements s))[j := isVisible (reset (elements s ! j))]"
    by (rule start_item_frame) simp
  then have "isVisible (elements (start_item sl s j) ! j) = isVisible (reset (elements s ! j))"
    using assms by (simp add: frame_nth)
  with True show ?thesis by (simp add: reset_def)
qed

lemma foldl_start_visible:
  assumes "\<forall>j \<in> set js. j < length (elements s)"
  shows "isVisible (elements (foldl (start_item sl) s js) ! k)
       = (k \<in> set js \<or> isVisible (elements s ! k))"
  using assms
  by (induction js arbitrary: s) (auto simp: start_item_visible)

lemma visible_ok_on_entry:
  assumes "visible_ok s"
  shows "visible_ok (on_entry s e)"
proof (cases "snd e")
  case False
  with assms show ?thesis by (simp add: on_entry_def)
next
  case True
  let ?sl = "slideItems_of (fst e) s"
  let ?c = "foldl clear_loop s ?sl"
  let ?r = "foldl (start_item ?sl) ?c ?sl"
  have v: "isVisible (elements ?r ! k) = (k \<in> set ?sl \<or> isVisible (elements s ! k))" for k
    using foldl_start_visible [of ?sl ?c ?sl k] by (simp add: slideItems_of_iff)
  have "shown (cb_item (cb t) # cb_group (cb t)) ?r" if t: "t \<in> set (timers ?r)" for t
  proof -
    from t have "t \<in> set (timers ?c) \<or> (\<exists>j \<in> set ?sl. cb t = TypeText j ?sl)"
      by (rule foldl_start_timers)
    then show ?thesis
    proof
      assume "t \<in> set (timers ?c)"
      then have "t \<in> set (timers s)" by (simp add: foldl_clear_timers)
      with assms have "shown (cb_item (cb t) # cb_group (cb t)) s"
        by (simp add: visible_ok_def list_all_iff)
      then show ?thesis by (simp add: shown_def v list_all_iff)
    next
      assume "\<exists>j \<in> set ?sl. cb t = TypeText j ?sl"
      then show ?thesis by (auto simp: shown_def v list_all_iff)
    qed
  qed
  then have "visible_ok ?r" by (simp add: visible_ok_def list_all_iff)
  with True show ?thesis by (simp add: on_entry_def Let_def)
qed

lemma visible_ok_observer_callback: "visible_ok s \<Longrightarrow> visible_ok (observer_callback es s)"
  unfolding observer_callback_def
  by (induction es arbitrary: s) (simp_all add: visible_ok_on_entry)

lemma reachable_visible_ok: "reachable s \<Longrightarrow> visible_ok s"
proof (induction rule: reachable.induct)
  case (start doc opts)
  show ?case
    by (simp add: visible_ok_def init_def constructor_def observe_all_def console_log_def)
next
  case (notify s entries)
  then show ?case by (simp add: visible_ok_observer_callback)
next
  case (timeout s)
  then show ?case by (simp add: visible_ok_fire_next)
next
  case (wait s t)
  then show ?case by (simp add: visible_ok_def shown_def)
next
  case (unload s)
  then show ?case by (auto simp: visible_ok_def shown_def destroy_eq list_all_iff)
qed

lemma present_cong:
  assumes "map (\<lambda>it. element it = None) (elements s') = map (\<lambda>it. element it = None) (elements s)"
  shows "present s' = present s"
proof -
  have p: "present u = list_all (\<lambda>b. \<not> b) (map (\<lambda>it. element it = None) (elements u))" for u
    by (simp add: present_def list_all_iff)
  show ?thesis unfolding p assms ..
qed

lemma static_element_None: "static_field (\<lambda>it. element it = None)"
  by (simp add: static_field_def frame_field_def)

lemma track_group_element: "it \<in> set (track_group g) \<Longrightarrow> element it \<noteq> None"
  by (auto simp: track_group_def track_def split: if_splits)

lemma reachable_present: "reachable s \<Longrightarrow> present s"
proof (induction rule: reachable.induct)
  case (start doc opts)
  show ?case
    by (auto simp: present_def init_def constructor_def observe_all_def console_log_def
          list_all_iff dest: track_group_element)
next
  case (notify s entries)
  then show ?case
    by (simp add: present_cong [OF static_observer_callback [OF static_element_None]])
next
  case (timeout s)
  then show ?case
    by (simp add: present_cong [OF static_fire_next [OF static_element_None]])
next
  case (wait s t)
  then show ?case by (simp add: present_def)
next
  case (unload s)
  then show ?case by (simp add: present_def)
qed

lemma write_text_timers [simp]: "timers (final (write_text i txt s)) = timers s"
  by (simp add: write_text_def split: option.splits sum.splits)

lemma append_cursor_timers [simp]: "timers (final (append_cursor i s)) = timers s"
  by (simp add: append_cursor_def split: option.splits sum.splits)

lemma write_text_length [simp]:
  "length (elements (final (write_text i txt s))) = length (elements s)"
  by (simp add: write_text_def split: option.splits sum.splits)

lemma typeText_arms_when_done:
  assumes b: "\<forall>j \<in> set sl. j < length (elements s)"
    and t: "t' \<in> set (timers (typeText i sl s))" and n: "t' \<notin> set (timers s)"
    and l: "is_loop (cb t')"
  shows "cb_group (cb t') = sl \<and> allDone sl (typeText i sl s)"
proof -
  let ?it = "elements s ! i"
  consider (skip) "\<not> isVisible ?it \<or> element ?it = None"
    | (type) "isVisible ?it" "element ?it \<noteq> None" "length (currentText ?it) < length (fullText ?it)"
    | (complete) "isVisible ?it" "element ?it \<noteq> None" "\<not> length (currentText ?it) < length (fullText ?it)"
    by blast
  then show ?thesis
  proof cases
    case skip
    then have "typeText i sl s = s"
      by (auto simp: typeText_def typeText_body_def)
    with t n show ?thesis by simp
  next
    case type
    let ?s1 = "upd i (\<lambda>it. it\<lparr>currentText :=
                 currentText it @ [fullText it ! length (currentText it)]\<rparr>) s"
    from type have eq: "typeText_body i sl s
        = and_then (write_text i (currentText (elements ?s1 ! i)) ?s1) (\<lambda>s2.
            and_then (append_cursor i s2) (\<lambda>s3.
            Done (schedule (TypeText i sl) (typingSpeed s3) s3)))"
      by (auto simp: typeText_body_def Let_def)
    have "\<forall>x \<in> set (timers (final (typeText_body i sl s))).
            x \<in> set (timers s) \<or> cb x = TypeText i sl"
      unfolding eq
      by (intro and_then_final [where P = "\<lambda>s'. \<forall>x \<in> set (timers s').
                                    x \<in> set (timers s) \<or> cb x = TypeText i sl"])
         (auto simp: schedule_def setTimeout_def)
    moreover have "timers (typeText i sl s) = timers (final (typeText_body i sl s))"
      by (cases "typeText_body i sl s") (simp_all add: typeText_def console_log_def)
    ultimately have "cb t' = TypeText i sl" using t n by auto
    with l show ?thesis by (simp add: is_loop_def)
  next
    case complete
    then have eq: "typeText_body i sl s
        = and_then (write_text i (fullText ?it) s) (\<lambda>s1.
            Done (if allDone sl s1 \<and> \<not> truthy (loopTimeout (elements s1 ! i))
                  then foldl (arm_loop sl) s1 sl else s1))"
      by (auto simp: typeText_body_def Let_def)
    show ?thesis
    proof (cases "write_text i (fullText ?it) s")
      case (Thrown e s1)
      then have "timers (typeText i sl s) = timers (final (write_text i (fullText ?it) s))"
        by (simp add: typeText_def eq and_then_def console_log_def)
      with t n show ?thesis by simp
    next
      case (Done s1)
      have ts: "timers s1 = timers (final (write_text i (fullText ?it) s))"
        and ln: "length (elements s1) = length (elements (final (write_text i (fullText ?it) s)))"
        by (simp_all add: Done)
      show ?thesis
      proof (cases "allDone sl s1 \<and> \<not> truthy (loopTimeout (elements s1 ! i))")
        case False
        then have "typeText i sl s = s1"
          by (auto simp: typeText_def eq Done and_then_def)
        with t n ts show ?thesis by simp
      next
        case True
        then have r: "typeText i sl s = foldl (arm_loop sl) s1 sl"
          by (simp add: typeText_def eq Done and_then_def)
        from t n ts have "t' \<in> set (map (\<lambda>m. \<lparr>tid = nextId s1 + m, due = now s1 + loopDelay s1,
                              cb = LoopRestart (sl ! m) sl\<rparr>) [0..<length sl])"
          by (simp add: r foldl_arm_timers)
        then have g: "cb_group (cb t') = sl" by auto
        have "(length (currentText (elements (foldl (arm_loop sl) s1 sl) ! j))
                = length (fullText (elements (foldl (arm_loop sl) s1 sl) ! j)))
            = (length (currentText (elements s1 ! j)) = length (fullText (elements s1 ! j)))"
          if "j \<in> set sl" for j
          using that b ln
          by (intro foldl_arm_nth [where f = "\<lambda>it. length (currentText it) = length (fullText it)"])
             simp_all
        with True have "allDone sl (foldl (arm_loop sl) s1 sl)"
          by (simp add: allDone_def list_all_iff)
        with g r show ?thesis by simp
      qed
    qed
  qed
qed

lemma reachable_group_tracked:
  assumes "reachable s" and "t \<in> set (timers s)"
  shows "cb_item (cb t) < length (elements s)"
    and "\<forall>j \<in> set (cb_group (cb t)). j < length (elements s)"
proof -
  from assms(1) have "loop_inv s" by (rule reachable_loop_inv)
  then have "groups_ok (timers s) (map slideElement (elements s))"
    by (simp add: loop_inv_def abs_inv_def)
  with assms(2) have a: "cb_item (cb t) < length (elements s)"
    and g: "cb_group (cb t) = members (map slideElement (elements s))
              (map slideElement (elements s) ! cb_item (cb t))"
    by (simp_all add: groups_ok_def)
  from a show "cb_item (cb t) < length (elements s)" .
  show "\<forall>j \<in> set (cb_group (cb t)). j < length (elements s)"
    unfolding g by (simp add: members_iff)
qed

lemmas brittle_defs = brittle_page_def brittle_item_def

lemma brittle_at0:
  "brittle_visible =
    demo_state 0 3
      [brittle_item [] [], demo_item 1 ''Yo'' [] [] True None]
      [1, 2]
      [tm 1 0 (TypeText 0 [0, 1]), tm 2 5 (TypeText 1 [0, 1])]"
  unfolding brittle_visible_def
  by (simp add: brittle_defs init_defs observer_defs fixture_defs step_defs)

lemma brittle_at1:
  "(fire_next ^^ 1) brittle_visible =
    demo_state 0 3
      [brittle_item ''H'' [TextNode ''H''], demo_item 1 ''Yo'' [] [] True None]
      [1, 2]
      [tm 2 5 (TypeText 1 [0, 1])]\<lparr>console := [''Typewriter animation error:'']\<rparr>"
  unfolding funpow_unroll(1) brittle_at0
  by (simp add: brittle_defs fixture_defs step_defs)

lemma brittle_at2:
  "(fire_next ^^ 2) brittle_visible =
    demo_state 5 4
      [brittle_item ''H'' [TextNode ''H''],
       demo_item 1 ''Yo'' ''Y'' [TextNode ''Y'', CursorSpan ''|''] True None]
      [1, 2, 3]
      [tm 3 15 (TypeText 1 [0, 1])]\<lparr>console := [''Typewriter animation error:'']\<rparr>"
  unfolding funpow_unroll(2) brittle_at1
  by (simp add: brittle_defs fixture_defs step_defs)

lemma brittle_at3:
  "(fire_next ^^ 3) brittle_visible =
    demo_state 15 5
      [brittle_item ''H'' [TextNode ''H''],
       demo_item 1 ''Yo'' ''Yo'' [TextNode ''Yo'', CursorSpan ''|''] True None]
      [1, 2, 3, 4]
      [tm 4 25 (TypeText 1 [0, 1])]\<lparr>console := [''Typewriter animation error:'']\<rparr>"
  unfolding funpow_unroll(3) brittle_at2
  by (simp add: brittle_defs fixture_defs step_defs)

lemma brittle_at4:
  "(fire_next ^^ 4) brittle_visible =
    demo_state 25 5
      [brittle_item ''H'' [TextNode ''H''],
       demo_item 1 ''Yo'' ''Yo'' [TextNode ''Yo''] True None]
      [1, 2, 3, 4]
      []\<lparr>console := [''Typewriter animation error:'']\<rparr>"
  unfolding funpow_unroll(4) brittle_at3
  by (simp add: brittle_defs fixture_defs step_defs)



lemma reachable_brittle_visible: "reachable brittle_visible"
  unfolding brittle_visible_def
  by (rule reachable.notify) (rule reachable.start)

lemma brittle_visible_facts:
  "earliest (timers brittle_visible) = Some (tm 1 0 (TypeText 0 [0, 1]))"
  "cb (tm 1 0 (TypeText 0 [0, 1])) = TypeText 0 [0, 1]"
  "console brittle_visible = []"
  "filter (\<lambda>x. tid x \<noteq> tid (tm 1 0 (TypeText 0 [0, 1]))) (timers brittle_visible)
     = [tm 2 5 (TypeText 1 [0, 1])]"
  by (simp_all add: brittle_at0 demo_state_def tm_def constructor_def)

lemma brittle_throws:
  "typeText_body 0 [0, 1]
     (brittle_visible
        \<lparr>timers := filter (\<lambda>x. tid x \<noteq> tid (tm 1 0 (TypeText 0 [0, 1]))) (timers brittle_visible),
         now := max (now brittle_visible) (due (tm 1 0 (TypeText 0 [0, 1])))\<rparr>)
   = Thrown DOMException
       (demo_state 0 3
          [brittle_item ''H'' [TextNode ''H''], demo_item 1 ''Yo'' [] [] True None]
          [1, 2]
          [tm 2 5 (TypeText 1 [0, 1])])"
  unfolding brittle_at0
  by (simp add: brittle_defs fixture_defs typeText_body_def write_text_def append_cursor_def
        set_textContent_def appendCursor_def and_then_def upd_def Let_def)

lemma hi_yo_at4_step:
  "earliest (timers ((fire_next ^^ 4) hi_yo_visible)) = Some (tm 5 20 (TypeText 0 [0, 1]))"
  "cb (tm 5 20 (TypeText 0 [0, 1])) = TypeText 0 [0, 1]"
  "tm 7 120 (LoopRestart 0 [0, 1]) \<notin> set (timers ((fire_next ^^ 4) hi_yo_visible))"
  "is_loop (cb (tm 7 120 (LoopRestart 0 [0, 1])))"
  unfolding hi_yo_at4
  by (simp_all add: demo_state_def tm_def is_loop_def)

lemma hi_yo_at5_armed:
  "tm 7 120 (LoopRestart 0 [0, 1]) \<in> set (timers (fire_next ((fire_next ^^ 4) hi_yo_visible)))"
proof -
  have "fire_next ((fire_next ^^ 4) hi_yo_visible) = (fire_next ^^ 5) hi_yo_visible"
    by (simp only: funpow_unroll(5))
  then show ?thesis
    by (simp add: hi_yo_at5 demo_state_def del: funpow.simps)
qed


end
